theory Spec2Isabelle
  imports Main
begin

section \<open>Decimal formatting used by the f-strings\<close>

text \<open>
  The log lines and the task ids are built with Python f-strings: \<open>{n}\<close> prints an
  integer in decimal and \<open>{n:03d}\<close> pads the decimal digits with zeros on the left up to
  width 3 (longer numbers are printed in full).
\<close>

definition digit_char :: "nat \<Rightarrow> char" where
  "digit_char d = ''0123456789'' ! d"

fun show_nat :: "nat \<Rightarrow> string" where
  "show_nat n = (if n < 10 then [digit_char n] else show_nat (n div 10) @ [digit_char (n mod 10)])"

declare show_nat.simps [simp del]

definition show_int :: "int \<Rightarrow> string" where
  "show_int i = (if i < 0 then CHR ''-'' # show_nat (nat (- i)) else show_nat (nat i))"

definition format_03d :: "nat \<Rightarrow> string" where
  "format_03d n = replicate (3 - length (show_nat n)) CHR ''0'' @ show_nat n"

text \<open>The number a string of decimal digits denotes, to state what the formatting preserves.\<close>

definition digit_val :: "char \<Rightarrow> nat" where
  "digit_val c = of_char c - 48"

definition read_nat :: "string \<Rightarrow> nat" where
  "read_nat cs = foldl (\<lambda>a c. 10 * a + digit_val c) 0 cs"

fun join :: "string \<Rightarrow> string list \<Rightarrow> string" where
  "join sep [] = []"
| "join sep [p] = p"
| "join sep (p # ps) = p @ sep @ join sep ps"

section \<open>Task and QueueRR\<close>

record Task =
  task_id :: string
  remaining :: int

text \<open>
  \<open>QueueRR\<close>: the fixed-capacity circular buffer. \<open>capacity\<close>, \<open>head\<close>, \<open>size_q\<close>
  (the field \<open>_size\<close>) and \<open>next_task_num\<close> are Python ints that the class only ever
  sets to non-negative values (\<open>max(0, ...)\<close>, a remainder, a count that is decremented
  only when it is not zero, a counter that starts at 1), so they are naturals here.
  The buffer has \<open>max(capacity, 1)\<close> slots from construction on and is never resized.
\<close>

record QueueRR =
  queue_id :: string
  capacity :: nat
  buf :: "Task option list"
  head :: nat
  size_q :: nat
  next_task_num :: nat

definition QueueRR_init :: "string \<Rightarrow> int \<Rightarrow> QueueRR" where
  "QueueRR_init qid cap =
     (let c = nat (max 0 cap) in
      \<lparr>queue_id = qid, capacity = c,
       buf = replicate (if c > 0 then c else 1) None,
       head = 0, size_q = 0, next_task_num = 1\<rparr>)"

definition q_enqueue :: "QueueRR \<Rightarrow> Task \<Rightarrow> bool \<times> QueueRR" where
  "q_enqueue q task =
     (if size_q q \<ge> capacity q then (False, q)
      else let pos = (head q + size_q q) mod length (buf q) in
        (True, q\<lparr>buf := (buf q)[pos := Some task], size_q := size_q q + 1\<rparr>))"

definition q_dequeue :: "QueueRR \<Rightarrow> Task option \<times> QueueRR" where
  "q_dequeue q =
     (if size_q q = 0 then (None, q)
      else let t = buf q ! head q in
        (t, q\<lparr>buf := (buf q)[head q := None],
              head := (head q + 1) mod length (buf q),
              size_q := size_q q - 1\<rparr>))"

definition q_peek :: "QueueRR \<Rightarrow> Task option" where
  "q_peek q = (if size_q q = 0 then None else buf q ! head q)"

definition contents_front_to_back :: "QueueRR \<Rightarrow> Task list" where
  "contents_front_to_back q =
     List.map_filter (\<lambda>i. buf q ! ((head q + i) mod length (buf q))) [0..<size_q q]"

definition next_task_id :: "QueueRR \<Rightarrow> string \<times> QueueRR" where
  "next_task_id q =
     (queue_id q @ ''-'' @ format_03d (next_task_num q),
      q\<lparr>next_task_num := next_task_num q + 1\<rparr>)"

text \<open>\<open>k\<close> successive calls of \<open>next_task_id\<close> on the same queue, and the ids they return.\<close>

fun next_task_ids :: "nat \<Rightarrow> QueueRR \<Rightarrow> string list \<times> QueueRR" where
  "next_task_ids 0 q = ([], q)"
| "next_task_ids (Suc k) q =
     (let (tid, q1) = next_task_id q;
          (tids, q2) = next_task_ids k q1
      in (tid # tids, q2))"

section \<open>Scheduler\<close>

text \<open>
  The state of a \<open>Scheduler\<close> object. Every public method returns the list of log lines
  it produced, so the model returns the new state together with that list. The two
  \<open>print\<close> calls of \<open>enqueue\<close> write a message to standard output, which is neither
  part of the state nor of the returned log, and are left out; \<open>display\<close>, \<open>menu\<close> and
  \<open>next_queue\<close> are not called by the operations below.
\<close>

record Scheduler =
  queues :: "string \<rightharpoonup> QueueRR"
  order :: "string list"
  skip_pending :: "string \<rightharpoonup> bool"
  next_index :: nat
  time :: int

definition menu :: "string \<rightharpoonup> int" where
  "menu = map_of
     [(''americano'', 2), (''latte'', 3), (''cappuccino'', 3), (''mocha'', 4),
      (''tea'', 1), (''macchiato'', 2), (''hot_chocolate'', 4)]"

definition Scheduler_init :: Scheduler where
  "Scheduler_init =
     \<lparr>queues = Map.empty, order = [], skip_pending = Map.empty, next_index = 0, time = 0\<rparr>"

definition log_time_event ::
  "Scheduler \<Rightarrow> string \<Rightarrow> string option \<Rightarrow> string option \<Rightarrow> int option \<Rightarrow> string option \<Rightarrow> string"
where
  "log_time_event s event queue task rem reason =
     join '' ''
       ([''time='' @ show_int (time s), ''event='' @ event]
        @ (case queue of None \<Rightarrow> [] | Some q \<Rightarrow> [''queue='' @ q])
        @ (case task of None \<Rightarrow> [] | Some t \<Rightarrow> [''task='' @ t])
        @ (case rem of None \<Rightarrow> [] | Some r \<Rightarrow> [''remaining='' @ show_int r])
        @ (case reason of None \<Rightarrow> [] | Some r \<Rightarrow> [''reason='' @ r]))"

definition create_queue :: "Scheduler \<Rightarrow> string \<Rightarrow> int \<Rightarrow> Scheduler \<times> string list" where
  "create_queue s qid cap =
     (let s1 = (if queues s qid \<noteq> None then s\<lparr>queues := (queues s)(qid := None)\<rparr> else s);
          q = QueueRR_init qid cap;
          s2 = s1\<lparr>queues := (queues s1)(qid \<mapsto> q)\<rparr>;
          s3 = s2\<lparr>order := order s2 @ [qid]\<rparr>;
          s4 = s3\<lparr>skip_pending := (skip_pending s3)(qid \<mapsto> False)\<rparr>
      in (s4, [log_time_event s4 ''create'' (Some qid) None None None]))"

definition enqueue :: "Scheduler \<Rightarrow> string \<Rightarrow> string \<Rightarrow> Scheduler \<times> string list" where
  "enqueue s qid item_name =
     (case queues s qid of
        None \<Rightarrow> (s, [log_time_event s ''error'' (Some qid) None None (Some ''unknown_queue'')])
      | Some q \<Rightarrow>
          let (tid, q1) = next_task_id q;
              s1 = s\<lparr>queues := (queues s)(qid \<mapsto> q1)\<rparr>
          in (case menu item_name of
                None \<Rightarrow>
                  (s1, [log_time_event s1 ''reject'' (Some qid) (Some tid) None (Some ''unknown_item'')])
              | Some cost \<Rightarrow>
                  if size_q q1 \<ge> capacity q1
                  then (s1, [log_time_event s1 ''reject'' (Some qid) (Some tid) None (Some ''full'')])
                  else
                    let burst = cost;
                        task = \<lparr>task_id = tid, remaining = burst\<rparr>;
                        (ok, q2) = q_enqueue q1 task;
                        s2 = s1\<lparr>queues := (queues s1)(qid \<mapsto> q2)\<rparr>
                    in if \<not> ok
                       then (s2, [log_time_event s2 ''reject'' (Some qid) (Some tid) None (Some ''full'')])
                       else (s2, [log_time_event s2 ''enqueue'' (Some qid) (Some tid) (Some burst) None])))"

definition mark_skip :: "Scheduler \<Rightarrow> string \<Rightarrow> Scheduler \<times> string list" where
  "mark_skip s qid =
     (if queues s qid = None
      then (s, [log_time_event s ''error'' (Some qid) None None (Some ''unknown_queue'')])
      else let s1 = s\<lparr>skip_pending := (skip_pending s)(qid \<mapsto> True)\<rparr>
           in (s1, [log_time_event s1 ''skip'' (Some qid) None None None]))"

text \<open>\<open>self._skip_pending.get(qid, False)\<close>\<close>

definition skip_get :: "Scheduler \<Rightarrow> string \<Rightarrow> bool" where
  "skip_get s qid = (case skip_pending s qid of None \<Rightarrow> False | Some b \<Rightarrow> b)"

definition perform_single_turn :: "Scheduler \<Rightarrow> string \<Rightarrow> int \<Rightarrow> Scheduler \<times> string list" where
  "perform_single_turn s qid quantum =
     (let logs = [log_time_event s ''run'' (Some qid) None None None] in
      if skip_get s qid then
        let s1 = s\<lparr>skip_pending := (skip_pending s)(qid \<mapsto> False)\<rparr>
        in (s1, logs @ [log_time_event s1 ''skip'' (Some qid) None None None])
      else
        case queues s qid of
          None \<Rightarrow> (s, logs)
        | Some q \<Rightarrow>
            if size_q q = 0 then (s, logs)
            else
              (case q_dequeue q of
                 (None, q1) \<Rightarrow> (s\<lparr>queues := (queues s)(qid \<mapsto> q1)\<rparr>, logs)
               | (Some task, q1) \<Rightarrow>
                   let work_time = min (remaining task) quantum;
                       s1 = s\<lparr>queues := (queues s)(qid \<mapsto> q1), time := time s + work_time\<rparr>;
                       task1 = task\<lparr>remaining := remaining task - work_time\<rparr>
                   in if remaining task1 \<le> 0 then
                        (s1, logs @ [log_time_event s1 ''work'' (Some qid) (Some (task_id task1)) (Some 0) None,
                                     log_time_event s1 ''finish'' (Some qid) (Some (task_id task1)) None None])
                      else
                        let (ok, q2) = q_enqueue q1 task1;
                            s2 = s1\<lparr>queues := (queues s1)(qid \<mapsto> q2)\<rparr>
                        in (s2, logs @ [log_time_event s2 ''work'' (Some qid) (Some (task_id task1))
                                          (Some (remaining task1)) None])))"

definition advance_index :: "Scheduler \<Rightarrow> Scheduler" where
  "advance_index s =
     (if order s = [] then s
      else s\<lparr>next_index := (next_index s + 1) mod length (order s)\<rparr>)"

datatype error = IndexError | KeyError

text \<open>\<open>all(len(self._queues[qid]) == 0 for qid in self._order)\<close>: the subscript raises
  KeyError on a missing id, and \<open>all\<close> stops at the first non-empty queue.\<close>

fun all_empty :: "Scheduler \<Rightarrow> string list \<Rightarrow> error + bool" where
  "all_empty s [] = Inr True"
| "all_empty s (qid # qids) =
     (case queues s qid of
        None \<Rightarrow> Inl KeyError
      | Some q \<Rightarrow> if size_q q = 0 then all_empty s qids else Inr False)"

definition any_skip :: "Scheduler \<Rightarrow> string list \<Rightarrow> bool" where
  "any_skip s qids = list_ex (skip_get s) qids"

text \<open>One pass of either loop body: \<open>current_qid = self._order[self._next_index]\<close> (IndexError
  when the index is out of range), the single turn, then \<open>advance_index()\<close>.\<close>

definition turn :: "Scheduler \<Rightarrow> int \<Rightarrow> error + Scheduler \<times> string list" where
  "turn s quantum =
     (if next_index s < length (order s) then
        let current_qid = order s ! next_index s;
            (s1, l) = perform_single_turn s current_qid quantum
        in Inr (advance_index s1, l)
      else Inl IndexError)"

text \<open>The \<open>while True\<close> loop of the run without steps. Not returning is the value \<open>None\<close>.\<close>

partial_function (option) run_until_quiet ::
  "int \<Rightarrow> Scheduler \<Rightarrow> string list \<Rightarrow> (error + Scheduler \<times> string list) option"
where
  "run_until_quiet quantum s logs =
     (case all_empty s (order s) of
        Inl e \<Rightarrow> Some (Inl e)
      | Inr ae \<Rightarrow>
          if ae \<and> \<not> any_skip s (order s) then Some (Inr (s, logs))
          else (case turn s quantum of
                  Inl e \<Rightarrow> Some (Inl e)
                | Inr (s1, l) \<Rightarrow> run_until_quiet quantum s1 (logs @ l)))"

declare run_until_quiet.simps [code]

text \<open>The \<open>for _ in range(turns_to_do)\<close> loop.\<close>

fun run_steps :: "nat \<Rightarrow> int \<Rightarrow> Scheduler \<Rightarrow> string list \<Rightarrow> error + Scheduler \<times> string list" where
  "run_steps 0 quantum s logs = Inr (s, logs)"
| "run_steps (Suc n) quantum s logs =
     (if order s = [] then
        run_steps n quantum s (logs @ [log_time_event s ''run'' None None None None])
      else case turn s quantum of
             Inl e \<Rightarrow> Inl e
           | Inr (s1, l) \<Rightarrow> run_steps n quantum s1 (logs @ l))"

definition run :: "Scheduler \<Rightarrow> int \<Rightarrow> int option \<Rightarrow> (error + Scheduler \<times> string list) option" where
  "run s quantum steps =
     (case steps of
        Some st \<Rightarrow>
          if st < 1 \<or> st > max 1 (int (length (order s)))
          then Some (Inr (s, [log_time_event s ''error'' None None None (Some ''invalid_steps'')]))
          else Some (run_steps (nat st) quantum s [])
      | None \<Rightarrow>
          if order s = [] then Some (Inr (s, []))
          else run_until_quiet quantum s [])"

section \<open>The representation invariant of a queue\<close>

text \<open>
  What the constructor establishes and every method keeps: the buffer has
  \<open>max(capacity, 1)\<close> slots, the head index is inside it, the size is at most the
  capacity, and the \<open>size_q\<close> slots from the head on (cyclically) each hold a task,
  whose remaining time is positive.
\<close>

definition queue_inv :: "QueueRR \<Rightarrow> bool" where
  "queue_inv q \<longleftrightarrow>
     length (buf q) = max (capacity q) 1 \<and> head q < length (buf q) \<and> size_q q \<le> capacity q
     \<and> list_all (\<lambda>i. case buf q ! ((head q + i) mod length (buf q)) of
                        None \<Rightarrow> False | Some t \<Rightarrow> 0 < remaining t)
          [0..<size_q q]"

section \<open>Sequences of engine operations\<close>

text \<open>
  The four operations of the engine, as the command loop dispatches them (\<open>CREATE\<close>,
  \<open>ENQ\<close>, \<open>SKIP\<close>, \<open>RUN\<close>), and the state after a list of them. An operation that does
  not return makes the whole list not return (\<open>None\<close>); a raised exception ends it.
\<close>

datatype op = Create string int | Enq string string | Skip string | Run int "int option"

definition exec_op :: "Scheduler \<Rightarrow> op \<Rightarrow> (error + Scheduler \<times> string list) option" where
  "exec_op s c =
     (case c of
        Create qid cap \<Rightarrow> Some (Inr (create_queue s qid cap))
      | Enq qid item \<Rightarrow> Some (Inr (enqueue s qid item))
      | Skip qid \<Rightarrow> Some (Inr (mark_skip s qid))
      | Run quantum steps \<Rightarrow> run s quantum steps)"

fun exec_ops :: "Scheduler \<Rightarrow> op list \<Rightarrow> (error + Scheduler) option" where
  "exec_ops s [] = Some (Inr s)"
| "exec_ops s (c # cs) =
     (case exec_op s c of
        None \<Rightarrow> None
      | Some (Inl e) \<Rightarrow> Some (Inl e)
      | Some (Inr (s1, l)) \<Rightarrow> exec_ops s1 cs)"

text \<open>
  The amount of work the turn against a queue performs: \<open>min(task.remaining, quantum)\<close>
  for the front task when the turn reaches the work branch, and nothing in a
  skip-consuming turn or a turn against an empty (or missing) queue.
\<close>

definition worked :: "Scheduler \<Rightarrow> string \<Rightarrow> int \<Rightarrow> int" where
  "worked s qid quantum =
     (if skip_get s qid then 0
      else case queues s qid of
             None \<Rightarrow> 0
           | Some q \<Rightarrow> (case q_peek q of None \<Rightarrow> 0 | Some task \<Rightarrow> min (remaining task) quantum))"

text \<open>
  A chain of loop passes: \<open>turns quantum s ws s'\<close> holds when \<open>s'\<close> is reached from
  \<open>s\<close> by \<open>length ws\<close> consecutive turns, each against the queue under the cursor,
  and \<open>ws\<close> lists the amounts of work of those turns in order.
\<close>

inductive turns :: "int \<Rightarrow> Scheduler \<Rightarrow> int list \<Rightarrow> Scheduler \<Rightarrow> bool" for quantum where
  turns_done: "turns quantum s [] s"
| turns_step: "turn s quantum = Inr (s1, l) \<Longrightarrow> turns quantum s1 ws s2 \<Longrightarrow>
               turns quantum s (worked s (order s ! next_index s) quantum # ws) s2"

text \<open>The runs of a command list all have a quantum that is not negative.\<close>

fun quantum_nonneg :: "op \<Rightarrow> bool" where
  "quantum_nonneg (Run quantum steps) = (0 \<le> quantum)"
| "quantum_nonneg _ = True"

definition engine_inv :: "Scheduler \<Rightarrow> bool" where
  "engine_inv s \<longleftrightarrow>
     (\<forall>qid q. queues s qid = Some q \<longrightarrow> queue_inv q)
     \<and> (\<forall>qid. qid \<in> set (order s) \<longleftrightarrow> queues s qid \<noteq> None)
     \<and> (next_index s < length (order s) \<or> next_index s = 0)"

section \<open>Example states\<close>

text \<open>A queue of capacity 1 holding one latte, with its skip flag set.\<close>

definition state_skip_busy :: Scheduler where
  "state_skip_busy =
     fst (mark_skip (fst (enqueue (fst (create_queue Scheduler_init ''Q1'' 1)) ''Q1'' ''latte'')) ''Q1'')"

text \<open>Two queues, \<open>A\<close> (capacity 2, holding one tea) and \<open>B\<close> (capacity 1, empty).\<close>

definition state_two_queues :: Scheduler where
  "state_two_queues =
     fst (enqueue (fst (create_queue (fst (create_queue Scheduler_init ''A'' 2)) ''B'' 1)) ''A'' ''tea'')"

text \<open>One queue of capacity 2 holding a latte (3) and, behind it, a tea (1).\<close>

definition state_two_tasks :: Scheduler where
  "state_two_tasks =
     fst (enqueue (fst (enqueue (fst (create_queue Scheduler_init ''Q1'' 2)) ''Q1'' ''latte''))
            ''Q1'' ''tea'')"

text \<open>Two queues, \<open>A\<close> empty and \<open>B\<close> holding one tea; the cursor is on \<open>A\<close>.\<close>

definition state_idle_first :: Scheduler where
  "state_idle_first =
     fst (enqueue (fst (create_queue (fst (create_queue Scheduler_init ''A'' 2)) ''B'' 1)) ''B'' ''tea'')"

text \<open>Two empty queues and no skip flag.\<close>

definition state_quiet :: Scheduler where
  "state_quiet = fst (create_queue (fst (create_queue Scheduler_init ''A'' 2)) ''B'' 0)"

section \<open>Quiescence\<close>

text \<open>
  The condition under which the run without steps leaves its loop: every queue of the
  creation order is present and empty, and no queue of the creation order has its skip
  flag pending.
\<close>

definition quiescent :: "Scheduler \<Rightarrow> bool" where
  "quiescent s \<longleftrightarrow>
     list_all (\<lambda>qid. case queues s qid of None \<Rightarrow> False | Some q \<Rightarrow> size_q q = 0) (order s)
     \<and> \<not> list_ex (skip_get s) (order s)"

section \<open>The progress measure of the run without steps\<close>

text \<open>
  A queue of the creation order is active when its skip flag is pending or it holds a task;
  a turn against any other queue only moves the cursor. The load of the engine is the sum
  of the remaining times of all queued tasks plus the number of pending skip flags, over
  the queues of the creation order. \<open>idle_run\<close> counts the queues that are not active
  from the cursor on, up to the first active one.
\<close>

definition active :: "Scheduler \<Rightarrow> string \<Rightarrow> bool" where
  "active s qid \<longleftrightarrow>
     skip_get s qid \<or> (case queues s qid of None \<Rightarrow> False | Some q \<Rightarrow> size_q q \<noteq> 0)"

definition queue_load :: "Scheduler \<Rightarrow> string \<Rightarrow> nat" where
  "queue_load s qid =
     (case queues s qid of
        None \<Rightarrow> 0
      | Some q \<Rightarrow> sum_list (map (\<lambda>t. nat (remaining t)) (contents_front_to_back q)))
     + (if skip_get s qid then 1 else 0)"

definition load :: "Scheduler \<Rightarrow> nat" where
  "load s = sum (queue_load s) (set (order s))"

definition idle_run :: "Scheduler \<Rightarrow> nat" where
  "idle_run s =
     length (takeWhile (\<lambda>qid. \<not> active s qid) (rotate (next_index s) (order s)))"

section \<open>Basic facts\<close>

lemma log_time_event_cong:
  "time s = time s' \<Longrightarrow> log_time_event s = log_time_event s'"
  by (intro ext) (simp add: log_time_event_def)

lemma state_skip_busy_eval:
  "queues state_skip_busy ''Q1'' =
     Some \<lparr>queue_id = ''Q1'', capacity = 1,
           buf = [Some \<lparr>task_id = ''Q1-001'', remaining = 3\<rparr>],
           head = 0, size_q = 1, next_task_num = 2\<rparr>"
  "skip_pending state_skip_busy ''Q1'' = Some True"
  "order state_skip_busy = [''Q1'']"
  "time state_skip_busy = 0"
  "next_index state_skip_busy = 0"
  by code_simp+

section \<open>The skip-consuming turn\<close>

text \<open>
  C2. When the skip flag of the visited queue is pending, one turn against it returns the
  state with that flag set to False and nothing else changed (so the clock and every
  queue, with its buffer, are as before) and its log is exactly the \<open>run\<close> event
  followed by the \<open>skip\<close> event of that queue, both at the unchanged time. Nothing is
  assumed about the queue's contents: the skip wins over waiting tasks.
\<close>

theorem skip_turn_precedence:
  assumes "skip_pending s qid = Some True"
  shows "perform_single_turn s qid quantum =
           (s\<lparr>skip_pending := (skip_pending s)(qid \<mapsto> False)\<rparr>,
            [log_time_event s ''run'' (Some qid) None None None,
             log_time_event s ''skip'' (Some qid) None None None])"
  using assms
  by (simp add: perform_single_turn_def skip_get_def log_time_event_def Let_def)

theorem skip_turn_precedence_witness:
  "skip_pending state_skip_busy ''Q1'' = Some True \<and>
   contents_front_to_back (the (queues state_skip_busy ''Q1'')) =
     [\<lparr>task_id = ''Q1-001'', remaining = 3\<rparr>] \<and>
   perform_single_turn state_skip_busy ''Q1'' 1 =
     (state_skip_busy\<lparr>skip_pending := (skip_pending state_skip_busy)(''Q1'' \<mapsto> False)\<rparr>,
      [''time=0 event=run queue=Q1'', ''time=0 event=skip queue=Q1''])"
proof -
  have h: "skip_pending state_skip_busy ''Q1'' = Some True"
    by (simp add: state_skip_busy_eval)
  have c: "contents_front_to_back (the (queues state_skip_busy ''Q1'')) =
             [\<lparr>task_id = ''Q1-001'', remaining = 3\<rparr>]"
    by (simp add: state_skip_busy_eval contents_front_to_back_def List.map_filter_def)
  show ?thesis
    using h c skip_turn_precedence [OF h, of 1]
    by (simp add: log_time_event_def state_skip_busy_eval show_int_def show_nat.simps
        digit_char_def)
qed

section \<open>Re-creating a queue\<close>

text \<open>
  C1, as stated, fails on the code. Re-creating the existing queue \<open>Q1\<close> (whose skip
  flag is pending) appends a second \<open>Q1\<close> to the creation order and resets the flag.
\<close>

theorem create_queue_existing_counterexample:
  "queues state_skip_busy ''Q1'' \<noteq> None \<and>
   order state_skip_busy = [''Q1''] \<and>
   skip_pending state_skip_busy ''Q1'' = Some True \<and>
   order (fst (create_queue state_skip_busy ''Q1'' 1)) = [''Q1'', ''Q1''] \<and>
   skip_pending (fst (create_queue state_skip_busy ''Q1'' 1)) ''Q1'' = Some False"
  by (simp add: state_skip_busy_eval create_queue_def Let_def)

text \<open>
  C1, amended. When the id already exists, \<open>create_queue\<close> binds it to a fresh queue of
  the given capacity (no contents, task-id counter back at 1), leaves every other queue,
  the cursor and the clock as they were, keeps every existing slot of the creation order
  in place, and sets the id's skip flag to False.
\<close>

theorem create_queue_existing:
  assumes "queues s qid \<noteq> None"
  shows "queues (fst (create_queue s qid cap)) = (queues s)(qid \<mapsto> QueueRR_init qid cap)
       \<and> contents_front_to_back (QueueRR_init qid cap) = []
       \<and> next_task_num (QueueRR_init qid cap) = 1
       \<and> capacity (QueueRR_init qid cap) = nat (max 0 cap)
       \<and> take (length (order s)) (order (fst (create_queue s qid cap))) = order s
       \<and> skip_pending (fst (create_queue s qid cap)) = (skip_pending s)(qid \<mapsto> False)
       \<and> next_index (fst (create_queue s qid cap)) = next_index s
       \<and> time (fst (create_queue s qid cap)) = time s
       \<and> snd (create_queue s qid cap) = [log_time_event s ''create'' (Some qid) None None None]"
  using assms
  by (simp add: create_queue_def Let_def log_time_event_def QueueRR_init_def
      contents_front_to_back_def List.map_filter_def)

theorem create_queue_existing_witness:
  "queues state_skip_busy ''Q1'' \<noteq> None \<and>
   queues (fst (create_queue state_skip_busy ''Q1'' 2)) ''Q1'' =
     Some \<lparr>queue_id = ''Q1'', capacity = 2, buf = [None, None], head = 0, size_q = 0,
           next_task_num = 1\<rparr> \<and>
   skip_pending (fst (create_queue state_skip_busy ''Q1'' 2)) ''Q1'' = Some False \<and>
   take 1 (order (fst (create_queue state_skip_busy ''Q1'' 2))) = [''Q1'']"
proof -
  have h: "queues state_skip_busy ''Q1'' \<noteq> None"
    by (simp add: state_skip_busy_eval)
  have q: "QueueRR_init ''Q1'' 2 =
      \<lparr>queue_id = ''Q1'', capacity = 2, buf = [None, None], head = 0, size_q = 0,
           next_task_num = 1\<rparr>"
    by code_simp
  show ?thesis
    using h create_queue_existing [OF h, of 2]
    by (simp add: state_skip_busy_eval q)
qed

section \<open>Submissions\<close>

lemma log_time_event_queues [simp]:
  "log_time_event (s\<lparr>queues := qs\<rparr>) = log_time_event s"
  by (rule log_time_event_cong) simp

lemma enqueue_unknown_queue:
  "queues s qid = None \<Longrightarrow>
   enqueue s qid item =
     (s, [log_time_event s ''error'' (Some qid) None None (Some ''unknown_queue'')])"
  by (simp add: enqueue_def)

lemma enqueue_unknown_item:
  "queues s qid = Some q \<Longrightarrow> menu item = None \<Longrightarrow>
   enqueue s qid item =
     (s\<lparr>queues := (queues s)(qid \<mapsto> q\<lparr>next_task_num := next_task_num q + 1\<rparr>)\<rparr>,
      [log_time_event s ''reject'' (Some qid) (Some (fst (next_task_id q))) None
         (Some ''unknown_item'')])"
  by (simp add: enqueue_def next_task_id_def)

lemma enqueue_full:
  "queues s qid = Some q \<Longrightarrow> menu item = Some cost \<Longrightarrow> size_q q \<ge> capacity q \<Longrightarrow>
   enqueue s qid item =
     (s\<lparr>queues := (queues s)(qid \<mapsto> q\<lparr>next_task_num := next_task_num q + 1\<rparr>)\<rparr>,
      [log_time_event s ''reject'' (Some qid) (Some (fst (next_task_id q))) None (Some ''full'')])"
  by (simp add: enqueue_def next_task_id_def)

lemma enqueue_counter:
  "queues s qid = Some q \<Longrightarrow>
   \<exists>q'. queues (fst (enqueue s qid item)) qid = Some q'
        \<and> next_task_num q' = next_task_num q + 1"
  by (auto simp: enqueue_def next_task_id_def q_enqueue_def Let_def
      split: option.splits prod.splits if_splits)

lemma menu_eval: "menu ''espresso'' = None" "menu ''tea'' = Some 1"
  by (simp_all add: menu_def)

lemma format_03d_eval:
  "format_03d 1 = ''001''" "format_03d 2 = ''002''" "format_03d 3 = ''003''"
  by code_simp+

text \<open>
  C5. A submission to an id that is not a queue returns the state as it was (so no
  task id is consumed) and the single \<open>error\<close> event with reason \<open>unknown_queue\<close>.
  A submission to an existing queue always leaves that queue with its counter advanced by
  one; when the item is not on the menu, or the queue is at capacity, the counter is the
  only thing that changed in the whole state (buffer, head, size and clock are as before)
  and the log is the single \<open>reject\<close> event carrying the generated id, with reason
  \<open>unknown_item\<close> in the first case and \<open>full\<close> in the second.
\<close>

theorem submit_outcomes:
  "(queues s qid = None \<longrightarrow>
      enqueue s qid item =
        (s, [log_time_event s ''error'' (Some qid) None None (Some ''unknown_queue'')]))
   \<and> (\<forall>q. queues s qid = Some q \<longrightarrow>
        (\<exists>q'. queues (fst (enqueue s qid item)) qid = Some q'
              \<and> next_task_num q' = next_task_num q + 1)
        \<and> (menu item = None \<or> size_q q \<ge> capacity q \<longrightarrow>
             enqueue s qid item =
               (s\<lparr>queues := (queues s)(qid \<mapsto> q\<lparr>next_task_num := next_task_num q + 1\<rparr>)\<rparr>,
                [log_time_event s ''reject'' (Some qid) (Some (fst (next_task_id q))) None
                   (Some (if menu item = None then ''unknown_item'' else ''full''))])))"
proof (intro conjI allI impI)
  assume "queues s qid = None"
  then show "enqueue s qid item =
        (s, [log_time_event s ''error'' (Some qid) None None (Some ''unknown_queue'')])"
    by (rule enqueue_unknown_queue)
next
  fix q assume "queues s qid = Some q"
  then show "\<exists>q'. queues (fst (enqueue s qid item)) qid = Some q'
              \<and> next_task_num q' = next_task_num q + 1"
    by (rule enqueue_counter)
next
  fix q assume q: "queues s qid = Some q" and r: "menu item = None \<or> size_q q \<ge> capacity q"
  show "enqueue s qid item =
               (s\<lparr>queues := (queues s)(qid \<mapsto> q\<lparr>next_task_num := next_task_num q + 1\<rparr>)\<rparr>,
                [log_time_event s ''reject'' (Some qid) (Some (fst (next_task_id q))) None
                   (Some (if menu item = None then ''unknown_item'' else ''full''))])"
  proof (cases "menu item")
    case None
    then show ?thesis using enqueue_unknown_item [OF q None] by simp
  next
    case (Some cost)
    with r have "size_q q \<ge> capacity q" by simp
    then show ?thesis using enqueue_full [OF q Some] Some by simp
  qed
qed

theorem submit_outcomes_witness:
  "queues state_skip_busy ''Z'' = None \<and>
   enqueue state_skip_busy ''Z'' ''tea'' =
     (state_skip_busy, [''time=0 event=error queue=Z reason=unknown_queue'']) \<and>
   snd (enqueue state_skip_busy ''Q1'' ''espresso'') =
     [''time=0 event=reject queue=Q1 task=Q1-002 reason=unknown_item''] \<and>
   snd (enqueue state_skip_busy ''Q1'' ''tea'') =
     [''time=0 event=reject queue=Q1 task=Q1-002 reason=full''] \<and>
   map_option next_task_num (queues (fst (enqueue state_skip_busy ''Q1'' ''tea'')) ''Q1'') = Some 3"
proof -
  have z: "queues state_skip_busy ''Z'' = None" by code_simp
  note e = state_skip_busy_eval
  have a: "enqueue state_skip_busy ''Z'' ''tea'' =
     (state_skip_busy, [''time=0 event=error queue=Z reason=unknown_queue''])"
    using z submit_outcomes [of state_skip_busy "''Z''" "''tea''"]
    by (simp add: e log_time_event_def show_int_def show_nat.simps digit_char_def)
  have b: "snd (enqueue state_skip_busy ''Q1'' ''espresso'') =
     [''time=0 event=reject queue=Q1 task=Q1-002 reason=unknown_item'']"
    using submit_outcomes [of state_skip_busy "''Q1''" "''espresso''"]
    by (simp add: e menu_eval next_task_id_def format_03d_eval log_time_event_def show_int_def
        show_nat.simps digit_char_def)
  have c: "enqueue state_skip_busy ''Q1'' ''tea'' =
     (state_skip_busy\<lparr>queues := (queues state_skip_busy)(''Q1'' \<mapsto>
         \<lparr>queue_id = ''Q1'', capacity = 1,
           buf = [Some \<lparr>task_id = ''Q1-001'', remaining = 3\<rparr>],
           head = 0, size_q = 1, next_task_num = 3\<rparr>)\<rparr>,
      [''time=0 event=reject queue=Q1 task=Q1-002 reason=full''])"
    using submit_outcomes [of state_skip_busy "''Q1''" "''tea''"]
    by (simp add: e menu_eval next_task_id_def format_03d_eval log_time_event_def show_int_def
        show_nat.simps digit_char_def)
  show ?thesis
    using z a b by (simp add: c)
qed

section \<open>Runs that do nothing\<close>

text \<open>
  C6. When \<open>steps\<close> is given and is below 1 or above \<open>max(1, len(order))\<close>, \<open>run\<close>
  returns the state it was given (queues, cursor, skip flags and clock unchanged, no turn
  performed) and a log holding only the \<open>error\<close> event with reason \<open>invalid_steps\<close>.
\<close>

theorem run_invalid_steps:
  assumes "st < 1 \<or> st > max 1 (int (length (order s)))"
  shows "run s quantum (Some st) =
           Some (Inr (s, [log_time_event s ''error'' None None None (Some ''invalid_steps'')]))"
  using assms by (simp add: run_def)

theorem run_invalid_steps_witness:
  "length (order state_two_queues) = 2 \<and>
   run state_two_queues 1 (Some 0) =
     Some (Inr (state_two_queues, [''time=0 event=error reason=invalid_steps''])) \<and>
   run state_two_queues 1 (Some 3) =
     Some (Inr (state_two_queues, [''time=0 event=error reason=invalid_steps'']))"
proof -
  have o: "order state_two_queues = [''A'', ''B'']" "time state_two_queues = 0"
    by code_simp+
  have l: "log_time_event state_two_queues ''error'' None None None (Some ''invalid_steps'') =
             ''time=0 event=error reason=invalid_steps''"
    by (simp add: log_time_event_def o show_int_def show_nat.simps digit_char_def)
  have h0: "(0::int) < 1 \<or> 0 > max 1 (int (length (order state_two_queues)))"
    by simp
  have h3: "(3::int) < 1 \<or> 3 > max 1 (int (length (order state_two_queues)))"
    by (simp add: o)
  show ?thesis
    using run_invalid_steps [OF h0, of 1] run_invalid_steps [OF h3, of 1] l
    by (simp add: o)
qed

lemma all_empty_True:
  "\<forall>qid\<in>set qids. \<exists>q. queues s qid = Some q \<and> size_q q = 0 \<Longrightarrow> all_empty s qids = Inr True"
  by (induction qids) auto

text \<open>
  C9. A run without steps on an engine whose creation order is empty, or which is
  quiescent, returns at once with an empty log and the state unchanged.
\<close>

theorem run_quiescent_noop:
  assumes "order s = [] \<or> quiescent s"
  shows "run s quantum None = Some (Inr (s, []))"
proof (cases "order s = []")
  case True
  then show ?thesis by (simp add: run_def)
next
  case False
  with assms have q: "quiescent s" by simp
  have "all_empty s (order s) = Inr True"
    using q by (intro all_empty_True) (auto simp: quiescent_def list_all_iff split: option.splits)
  moreover have "\<not> any_skip s (order s)"
    using q by (simp add: quiescent_def any_skip_def)
  ultimately show ?thesis
    using False by (simp add: run_def run_until_quiet.simps)
qed

theorem run_quiescent_noop_witness:
  "order state_quiet = [''A'', ''B''] \<and> quiescent state_quiet \<and>
   run state_quiet 2 None = Some (Inr (state_quiet, [])) \<and>
   order Scheduler_init = [] \<and>
   run Scheduler_init 2 None = Some (Inr (Scheduler_init, []))"
proof -
  have o: "order state_quiet = [''A'', ''B'']" by code_simp
  have q: "quiescent state_quiet" by code_simp
  have e: "order Scheduler_init = []" by (simp add: Scheduler_init_def)
  have h1: "order state_quiet = [] \<or> quiescent state_quiet" using q by simp
  have h2: "order Scheduler_init = [] \<or> quiescent Scheduler_init" using e by simp
  show ?thesis
    using o q e run_quiescent_noop [OF h1, of 2] run_quiescent_noop [OF h2, of 2] by simp
qed

section \<open>The circular buffer\<close>

lemma case_option_ex:
  "(case x of None \<Rightarrow> False | Some t \<Rightarrow> P t) \<longleftrightarrow> (\<exists>t. x = Some t \<and> P t)"
  by (cases x) simp_all

lemma queue_inv_iff:
  "queue_inv q \<longleftrightarrow>
     length (buf q) = max (capacity q) 1 \<and> head q < length (buf q) \<and> size_q q \<le> capacity q
     \<and> (\<forall>i<size_q q. \<exists>t. buf q ! ((head q + i) mod length (buf q)) = Some t \<and> 0 < remaining t)"
  unfolding queue_inv_def list_all_iff case_option_ex by auto

lemma queue_inv_slot:
  assumes "queue_inv q" "i < size_q q"
  shows "\<exists>t. buf q ! ((head q + i) mod length (buf q)) = Some t \<and> 0 < remaining t"
  using assms unfolding queue_inv_iff by blast

lemma queue_inv_init: "queue_inv (QueueRR_init qid cap)"
  by (auto simp: queue_inv_def QueueRR_init_def Let_def max_def)

lemma contents_map:
  assumes "queue_inv q"
  shows "contents_front_to_back q =
     map (\<lambda>i. the (buf q ! ((head q + i) mod length (buf q)))) [0..<size_q q]"
proof -
  have "filter (\<lambda>i. buf q ! ((head q + i) mod length (buf q)) \<noteq> None) [0..<size_q q] = [0..<size_q q]"
    using queue_inv_slot [OF assms] by (fastforce simp: filter_id_conv)
  then show ?thesis
    by (simp add: contents_front_to_back_def List.map_filter_def comp_def)
qed

lemma mod_slot_le:
  fixes h i j n :: nat
  assumes "i \<le> j" "j < n" "(h + i) mod n = (h + j) mod n"
  shows "i = j"
proof -
  have "h + i \<le> h + j" using assms(1) by simp
  then have "(h + j) mod n = (h + i) mod n \<longleftrightarrow> n dvd (h + j) - (h + i)"
    by (rule mod_eq_dvd_iff_nat)
  with assms(3) have "n dvd (h + j) - (h + i)" by simp
  then have "n dvd j - i" by simp
  moreover have "j - i < n" using assms(2) by simp
  ultimately have "j - i = 0" by (meson dvd_imp_le not_less zero_less_iff_neq_zero)
  with assms(1) show ?thesis by simp
qed

lemma mod_slot_inj:
  fixes h i j n :: nat
  assumes "i < n" "j < n" "(h + i) mod n = (h + j) mod n"
  shows "i = j"
proof (cases "i \<le> j")
  case True
  then show ?thesis using assms mod_slot_le by blast
next
  case False
  then have "j \<le> i" by simp
  then show ?thesis using assms mod_slot_le [of j i n h] by simp
qed

lemma q_enqueue_full:
  "size_q q \<ge> capacity q \<Longrightarrow> q_enqueue q t = (False, q)"
  by (simp add: q_enqueue_def)

lemma q_enqueue_ok:
  "size_q q < capacity q \<Longrightarrow> fst (q_enqueue q t) = True"
  by (simp add: q_enqueue_def Let_def)

lemma q_enqueue_inv:
  assumes "queue_inv q" "0 < remaining t"
  shows "queue_inv (snd (q_enqueue q t))"
proof (cases "size_q q \<ge> capacity q")
  case True
  then show ?thesis using assms by (simp add: q_enqueue_def)
next
  case False
  let ?n = "length (buf q)"
  from False assms(1) have n: "?n = capacity q" "size_q q < ?n" "head q < ?n"
    by (auto simp: queue_inv_def max_def)
  let ?pos = "(head q + size_q q) mod ?n"
  have pos: "?pos < ?n" using n by simp
  have slot: "\<exists>u. (buf q)[?pos := Some t] ! ((head q + i) mod ?n) = Some u \<and> 0 < remaining u"
    if "i < size_q q + 1" for i
  proof (cases "i = size_q q")
    case True
    then show ?thesis using pos assms(2) by simp
  next
    case False
    with that have i: "i < size_q q" by simp
    then have "(head q + i) mod ?n \<noteq> ?pos"
      using mod_slot_inj [of i ?n "size_q q" "head q"] n by auto
    then show ?thesis using queue_inv_slot [OF assms(1) i] by simp
  qed
  have "snd (q_enqueue q t) = q\<lparr>buf := (buf q)[?pos := Some t], size_q := size_q q + 1\<rparr>"
    using False by (simp add: q_enqueue_def Let_def)
  moreover have "queue_inv (q\<lparr>buf := (buf q)[?pos := Some t], size_q := size_q q + 1\<rparr>)"
    unfolding queue_inv_iff using n slot assms(1) by (simp add: queue_inv_iff)
  ultimately show ?thesis by simp
qed

lemma map_filter_append:
  "List.map_filter f (xs @ ys) = List.map_filter f xs @ List.map_filter f ys"
  by (simp add: List.map_filter_def)

lemma map_filter_cong_set:
  "(\<And>x. x \<in> set xs \<Longrightarrow> f x = g x) \<Longrightarrow> List.map_filter f xs = List.map_filter g xs"
  by (induction xs) (simp_all add: List.map_filter_simps split: option.splits)

lemma q_enqueue_contents:
  assumes "queue_inv q" "size_q q < capacity q"
  shows "contents_front_to_back (snd (q_enqueue q t)) = contents_front_to_back q @ [t]"
proof -
  let ?n = "length (buf q)"
  from assms have n: "?n = capacity q" "size_q q < ?n" "head q < ?n"
    by (auto simp: queue_inv_iff max_def)
  let ?pos = "(head q + size_q q) mod ?n"
  let ?b = "(buf q)[?pos := Some t]"
  have pos: "?pos < ?n" using n by simp
  have q': "snd (q_enqueue q t) = q\<lparr>buf := ?b, size_q := size_q q + 1\<rparr>"
    using assms(2) by (simp add: q_enqueue_def Let_def)
  have old: "?b ! ((head q + i) mod ?n) = buf q ! ((head q + i) mod ?n)"
    if "i \<in> set [0..<size_q q]" for i
  proof -
    from that have i: "i < size_q q" by simp
    then have "(head q + i) mod ?n \<noteq> ?pos"
      using mod_slot_inj [of i ?n "size_q q" "head q"] n by auto
    then show ?thesis by simp
  qed
  have "contents_front_to_back (snd (q_enqueue q t)) =
          List.map_filter (\<lambda>i. ?b ! ((head q + i) mod ?n)) ([0..<size_q q] @ [size_q q])"
    by (simp add: q' contents_front_to_back_def)
  also have "\<dots> = List.map_filter (\<lambda>i. ?b ! ((head q + i) mod ?n)) [0..<size_q q] @ [t]"
    using pos by (simp add: map_filter_append List.map_filter_simps)
  also have "List.map_filter (\<lambda>i. ?b ! ((head q + i) mod ?n)) [0..<size_q q] =
             contents_front_to_back q"
    unfolding contents_front_to_back_def by (rule map_filter_cong_set) (rule old)
  finally show ?thesis .
qed

lemma dequeue_slot:
  assumes "h < length b" "Suc k < length b"
  shows "b[h := None] ! (((h + 1) mod length b + k) mod length b) = b ! ((h + Suc k) mod length b)"
proof -
  let ?n = "length b"
  have e: "((h + 1) mod ?n + k) mod ?n = (h + Suc k) mod ?n"
    by (simp add: mod_add_left_eq)
  have "(h + Suc k) mod ?n \<noteq> h"
  proof
    assume "(h + Suc k) mod ?n = h"
    then have "(h + Suc k) mod ?n = (h + 0) mod ?n" using assms(1) by simp
    then have "Suc k = 0" using assms(2) by (intro mod_slot_inj [of "Suc k" ?n 0 h]) auto
    then show False by simp
  qed
  then have "b[h := None] ! ((h + Suc k) mod ?n) = b ! ((h + Suc k) mod ?n)"
    by simp
  then show ?thesis by (simp only: e)
qed

lemma q_dequeue_empty: "size_q q = 0 \<Longrightarrow> q_dequeue q = (None, q)"
  by (simp add: q_dequeue_def)

lemma q_dequeue_front:
  assumes "queue_inv q" "size_q q \<noteq> 0"
  shows "\<exists>t. fst (q_dequeue q) = Some t \<and> 0 < remaining t
            \<and> contents_front_to_back q = t # contents_front_to_back (snd (q_dequeue q))
            \<and> queue_inv (snd (q_dequeue q))
            \<and> size_q (snd (q_dequeue q)) = size_q q - 1
            \<and> capacity (snd (q_dequeue q)) = capacity q"
proof -
  let ?n = "length (buf q)"
  define q' where "q' = q\<lparr>buf := (buf q)[head q := None], head := (head q + 1) mod ?n,
                 size_q := size_q q - 1\<rparr>"
  have f: "buf q' = (buf q)[head q := None]" "head q' = (head q + 1) mod ?n"
    "size_q q' = size_q q - 1" "capacity q' = capacity q"
    by (simp_all add: q'_def)
  from assms have n: "?n = max (capacity q) 1" "size_q q \<le> capacity q" "size_q q \<le> ?n"
    "head q < ?n" "0 < size_q q"
    by (auto simp: queue_inv_iff max_def)
  from queue_inv_slot [OF assms(1), of 0] n
  obtain t where t: "buf q ! head q = Some t" "0 < remaining t" by auto
  have d: "q_dequeue q = (Some t, q')"
    using assms(2) t by (simp add: q_dequeue_def Let_def q'_def)
  have slot: "buf q' ! ((head q' + k) mod length (buf q')) = buf q ! ((head q + Suc k) mod ?n)"
    if "k < size_q q - 1" for k
    using dequeue_slot [of "head q" "buf q" k] n that by (simp add: f)
  have inv': "queue_inv q'"
    unfolding queue_inv_iff
  proof (intro conjI allI impI)
    fix i assume "i < size_q q'"
    then have i: "i < size_q q - 1" by (simp add: f)
    then have "Suc i < size_q q" by simp
    from queue_inv_slot [OF assms(1) this] slot [OF i]
    show "\<exists>t. buf q' ! ((head q' + i) mod length (buf q')) = Some t \<and> 0 < remaining t"
      by simp
  next
    show "length (buf q') = max (capacity q') 1" using n by (simp add: f)
    show "head q' < length (buf q')" using n by (simp add: f)
    show "size_q q' \<le> capacity q'" using n by (simp add: f)
  qed
  have c: "contents_front_to_back q = t # contents_front_to_back q'"
  proof (rule nth_equalityI)
    show "length (contents_front_to_back q) = length (t # contents_front_to_back q')"
      using n by (simp add: contents_map [OF assms(1)] contents_map [OF inv'] f)
  next
    fix i assume "i < length (contents_front_to_back q)"
    then have i: "i < size_q q" by (simp add: contents_map [OF assms(1)])
    show "contents_front_to_back q ! i = (t # contents_front_to_back q') ! i"
    proof (cases i)
      case 0
      then show ?thesis using i t n by (simp add: contents_map [OF assms(1)])
    next
      case (Suc k)
      with i have k: "k < size_q q - 1" by simp
      have "contents_front_to_back q' ! k = the (buf q' ! ((head q' + k) mod length (buf q')))"
        using k by (simp add: contents_map [OF inv'] f)
      also have "\<dots> = the (buf q ! ((head q + Suc k) mod ?n))"
        using slot [OF k] by simp
      also have "\<dots> = contents_front_to_back q ! Suc k"
        using i Suc by (simp add: contents_map [OF assms(1)])
      finally show ?thesis using Suc by simp
    qed
  qed
  show ?thesis
    using d t inv' c by (simp add: f)
qed

section \<open>Turns, runs and the engine invariant\<close>

lemma log_time_event_skip_pending [simp]:
  "log_time_event (s\<lparr>skip_pending := sp\<rparr>) = log_time_event s"
  by (rule log_time_event_cong) simp

lemma q_enqueue_size:
  "size_q q < capacity q \<Longrightarrow>
   size_q (snd (q_enqueue q t)) = size_q q + 1 \<and> capacity (snd (q_enqueue q t)) = capacity q
   \<and> next_task_num (snd (q_enqueue q t)) = next_task_num q
   \<and> queue_id (snd (q_enqueue q t)) = queue_id q"
  by (simp add: q_enqueue_def Let_def)

text \<open>
  C8. A work turn (no skip pending) against a queue whose front task \<open>t\<close> keeps a
  positive remaining time after \<open>min(t.remaining, quantum)\<close> is taken off: the re-enqueue
  after the dequeue returns True, the queue then holds the former rest followed by \<open>t\<close>
  with the same id and the decremented remaining time as its last element, its size is as
  before, the clock has advanced by the worked amount, and the log is the \<open>run\<close> event
  and a \<open>work\<close> event stamped with the new clock and carrying the remaining time after
  the work. (When the task was alone in its queue the rest is empty, and the last position
  is then also the first.)
\<close>

theorem partial_work_requeue:
  assumes "\<not> skip_get s qid" and "queues s qid = Some q" and "queue_inv q"
    and "contents_front_to_back q = t # rest"
    and "0 < remaining t - min (remaining t) quantum"
  shows "\<exists>q'. perform_single_turn s qid quantum =
              (s\<lparr>queues := (queues s)(qid \<mapsto> q'), time := time s + min (remaining t) quantum\<rparr>,
               [log_time_event s ''run'' (Some qid) None None None,
                log_time_event (s\<lparr>time := time s + min (remaining t) quantum\<rparr>) ''work'' (Some qid)
                  (Some (task_id t)) (Some (remaining t - min (remaining t) quantum)) None])
            \<and> fst (q_enqueue (snd (q_dequeue q))
                     (t\<lparr>remaining := remaining t - min (remaining t) quantum\<rparr>))
            \<and> q' = snd (q_enqueue (snd (q_dequeue q))
                     (t\<lparr>remaining := remaining t - min (remaining t) quantum\<rparr>))
            \<and> contents_front_to_back q' =
                rest @ [t\<lparr>remaining := remaining t - min (remaining t) quantum\<rparr>]
            \<and> size_q q' = size_q q"
proof -
  let ?w = "min (remaining t) quantum"
  let ?t' = "t\<lparr>remaining := remaining t - ?w\<rparr>"
  have ne: "size_q q \<noteq> 0"
  proof
    assume "size_q q = 0"
    then have "contents_front_to_back q = []"
      by (simp add: contents_front_to_back_def List.map_filter_simps)
    with assms(4) show False by simp
  qed
  from q_dequeue_front [OF assms(3) ne] assms(4)
  have d: "fst (q_dequeue q) = Some t" "contents_front_to_back (snd (q_dequeue q)) = rest"
    "queue_inv (snd (q_dequeue q))" "size_q (snd (q_dequeue q)) = size_q q - 1"
    "capacity (snd (q_dequeue q)) = capacity q"
    by auto
  define q1 where "q1 = snd (q_dequeue q)"
  have dq: "q_dequeue q = (Some t, q1)" using d(1) by (simp add: q1_def prod_eq_iff)
  have le: "size_q q \<le> capacity q"
    using assms(3) by (simp add: queue_inv_iff)
  have lt: "size_q q1 < capacity q1"
    using d(4,5) le ne by (simp add: q1_def)
  define q2 where "q2 = snd (q_enqueue q1 ?t')"
  have eq: "q_enqueue q1 ?t' = (True, q2)"
    using q_enqueue_ok [OF lt, of ?t'] by (simp add: q2_def prod_eq_iff)
  have c: "contents_front_to_back q2 = rest @ [?t']"
    using q_enqueue_contents [OF _ lt, of ?t'] d(2,3) by (simp add: q1_def q2_def)
  have sz: "size_q q2 = size_q q"
    using q_enqueue_size [OF lt, of ?t'] d(4) ne by (simp add: q1_def q2_def)
  have ok: "fst (q_enqueue q1 ?t')"
    using q_enqueue_ok [OF lt, of ?t'] by simp
  have main: "perform_single_turn s qid quantum =
              (s\<lparr>queues := (queues s)(qid \<mapsto> q2), time := time s + ?w\<rparr>,
               [log_time_event s ''run'' (Some qid) None None None,
                log_time_event (s\<lparr>time := time s + ?w\<rparr>) ''work'' (Some qid)
                  (Some (task_id t)) (Some (remaining t - ?w)) None])"
    using assms(1,2,5) ne dq eq
    by (simp add: perform_single_turn_def Let_def log_time_event_def)
  show ?thesis
    using main c sz ok unfolding q2_def q1_def by (intro exI [of _ q2]) (simp add: q2_def q1_def)
qed


theorem partial_work_requeue_witness:
  "\<exists>q'. perform_single_turn state_two_tasks ''Q1'' 2 =
          (state_two_tasks\<lparr>queues := (queues state_two_tasks)(''Q1'' \<mapsto> q'), time := 2\<rparr>,
           [''time=0 event=run queue=Q1'',
            ''time=2 event=work queue=Q1 task=Q1-001 remaining=1''])
        \<and> contents_front_to_back q' =
            [\<lparr>task_id = ''Q1-002'', remaining = 1\<rparr>, \<lparr>task_id = ''Q1-001'', remaining = 1\<rparr>]"
proof -
  define q where "q = the (queues state_two_tasks ''Q1'')"
  define t where "t = \<lparr>task_id = ''Q1-001'', remaining = 3\<rparr>"
  have h1: "\<not> skip_get state_two_tasks ''Q1''" by code_simp
  have h2: "queues state_two_tasks ''Q1'' = Some q" unfolding q_def by code_simp
  have h3: "queue_inv q" unfolding q_def by code_simp
  have h4: "contents_front_to_back q = t # [\<lparr>task_id = ''Q1-002'', remaining = 1\<rparr>]"
    unfolding q_def t_def by code_simp
  have h5: "0 < remaining t - min (remaining t) 2" by (simp add: t_def)
  have tm: "time state_two_tasks = 0" by code_simp
  from partial_work_requeue [OF h1 h2 h3 h4 h5]
  obtain q' where "perform_single_turn state_two_tasks ''Q1'' 2 =
      (state_two_tasks\<lparr>queues := (queues state_two_tasks)(''Q1'' \<mapsto> q'),
         time := time state_two_tasks + min (remaining t) 2\<rparr>,
       [log_time_event state_two_tasks ''run'' (Some ''Q1'') None None None,
        log_time_event (state_two_tasks\<lparr>time := time state_two_tasks + min (remaining t) 2\<rparr>)
          ''work'' (Some ''Q1'') (Some (task_id t)) (Some (remaining t - min (remaining t) 2)) None])"
    and "contents_front_to_back q' =
      [\<lparr>task_id = ''Q1-002'', remaining = 1\<rparr>] @ [t\<lparr>remaining := remaining t - min (remaining t) 2\<rparr>]"
    by blast
  then show ?thesis
    by (intro exI [of _ q'])
      (simp add: t_def tm log_time_event_def show_int_def show_nat.simps digit_char_def)
qed

lemma engine_inv_init: "engine_inv Scheduler_init"
  by (simp add: engine_inv_def Scheduler_init_def)

lemma create_queue_inv:
  "engine_inv s \<Longrightarrow> engine_inv (fst (create_queue s qid cap))"
  by (auto simp: engine_inv_def create_queue_def Let_def queue_inv_init less_Suc_eq)

lemma queue_inv_next_task_num [simp]:
  "queue_inv (q\<lparr>next_task_num := n\<rparr>) = queue_inv q"
  by (simp add: queue_inv_def)

lemma next_task_id_inv: "queue_inv q \<Longrightarrow> queue_inv (snd (next_task_id q))"
  by (simp add: next_task_id_def)

lemma menu_positive: "menu item = Some cost \<Longrightarrow> 0 < cost"
  by (auto simp: menu_def split: if_splits)

lemma enqueue_queues:
  "queues s qid = Some q \<Longrightarrow>
   queues (fst (enqueue s qid item)) =
     (queues s)(qid \<mapsto>
        (case menu item of
           None \<Rightarrow> snd (next_task_id q)
         | Some cost \<Rightarrow>
             snd (q_enqueue (snd (next_task_id q))
                    \<lparr>task_id = fst (next_task_id q), remaining = cost\<rparr>)))"
  by (auto simp: enqueue_def Let_def q_enqueue_def next_task_id_def
      split: option.splits prod.splits)

lemma enqueue_frame:
  "order (fst (enqueue s qid item)) = order s"
  "skip_pending (fst (enqueue s qid item)) = skip_pending s"
  "next_index (fst (enqueue s qid item)) = next_index s"
  "time (fst (enqueue s qid item)) = time s"
  "queues s qid = None \<Longrightarrow> queues (fst (enqueue s qid item)) = queues s"
  by (auto simp: enqueue_def Let_def split: option.splits prod.splits)

lemma enqueue_inv:
  assumes "engine_inv s"
  shows "engine_inv (fst (enqueue s qid item))"
proof (cases "queues s qid")
  case None
  then show ?thesis using assms by (simp add: engine_inv_def enqueue_frame)
next
  case (Some q)
  then have q: "queue_inv q" using assms by (auto simp: engine_inv_def)
  have "queue_inv (case menu item of
           None \<Rightarrow> snd (next_task_id q)
         | Some cost \<Rightarrow>
             snd (q_enqueue (snd (next_task_id q))
                    \<lparr>task_id = fst (next_task_id q), remaining = cost\<rparr>))"
    using next_task_id_inv [OF q]
    by (auto split: option.splits intro!: q_enqueue_inv dest: menu_positive)
  then show ?thesis
    using assms Some by (auto simp: engine_inv_def enqueue_frame enqueue_queues)
qed

lemma mark_skip_inv: "engine_inv s \<Longrightarrow> engine_inv (fst (mark_skip s qid))"
  by (simp add: engine_inv_def mark_skip_def Let_def)


lemma perform_single_turn_frame:
  "order (fst (perform_single_turn s qid quantum)) = order s"
  "next_index (fst (perform_single_turn s qid quantum)) = next_index s"
  by (auto simp: perform_single_turn_def Let_def split: option.splits prod.splits)

lemma perform_single_turn_time:
  "time (fst (perform_single_turn s qid quantum)) = time s + worked s qid quantum"
  by (auto simp: perform_single_turn_def worked_def q_peek_def q_dequeue_def Let_def
      split: option.splits prod.splits)

lemma perform_single_turn_skip:
  "skip_get s qid \<Longrightarrow>
   fst (perform_single_turn s qid quantum) = s\<lparr>skip_pending := (skip_pending s)(qid \<mapsto> False)\<rparr>"
  by (simp add: perform_single_turn_def Let_def)

lemma perform_single_turn_idle:
  "\<not> skip_get s qid \<Longrightarrow> queues s qid = Some q \<Longrightarrow> size_q q = 0 \<Longrightarrow>
   fst (perform_single_turn s qid quantum) = s"
  by (simp add: perform_single_turn_def Let_def)

lemma perform_single_turn_work:
  assumes "\<not> skip_get s qid" "queues s qid = Some q" "size_q q \<noteq> 0" "queue_inv q"
  shows "\<exists>t. fst (q_dequeue q) = Some t \<and> 0 < remaining t \<and>
           fst (perform_single_turn s qid quantum) =
             s\<lparr>queues := (queues s)(qid \<mapsto>
                  (if remaining t - min (remaining t) quantum \<le> 0 then snd (q_dequeue q)
                   else snd (q_enqueue (snd (q_dequeue q))
                               (t\<lparr>remaining := remaining t - min (remaining t) quantum\<rparr>)))),
               time := time s + min (remaining t) quantum\<rparr>"
proof -
  from q_dequeue_front [OF assms(4,3)] obtain t where
    t: "fst (q_dequeue q) = Some t" "0 < remaining t" by blast
  define q1 where "q1 = snd (q_dequeue q)"
  have d: "q_dequeue q = (Some t, q1)" using t(1) by (simp add: q1_def prod_eq_iff)
  have "fst (perform_single_turn s qid quantum) =
             s\<lparr>queues := (queues s)(qid \<mapsto>
                  (if remaining t - min (remaining t) quantum \<le> 0 then q1
                   else snd (q_enqueue q1
                               (t\<lparr>remaining := remaining t - min (remaining t) quantum\<rparr>)))),
               time := time s + min (remaining t) quantum\<rparr>"
    using assms(1,2,3) d
    by (simp add: perform_single_turn_def Let_def split: prod.splits)
  then have "fst (perform_single_turn s qid quantum) =
             s\<lparr>queues := (queues s)(qid \<mapsto>
                  (if remaining t - min (remaining t) quantum \<le> 0 then snd (q_dequeue q)
                   else snd (q_enqueue (snd (q_dequeue q))
                               (t\<lparr>remaining := remaining t - min (remaining t) quantum\<rparr>)))),
               time := time s + min (remaining t) quantum\<rparr>"
    by (simp only: q1_def)
  with t show ?thesis by blast
qed

lemma perform_single_turn_inv:
  assumes "engine_inv s"
  shows "engine_inv (fst (perform_single_turn s qid quantum))"
proof (cases "skip_get s qid")
  case True
  then show ?thesis using assms by (simp add: perform_single_turn_skip engine_inv_def)
next
  case False
  show ?thesis
  proof (cases "queues s qid")
    case None
    then show ?thesis using assms False by (simp add: perform_single_turn_def Let_def)
  next
    case (Some q)
    then have qi: "queue_inv q" using assms by (auto simp: engine_inv_def)
    show ?thesis
    proof (cases "size_q q = 0")
      case True
      then show ?thesis using assms False Some by (simp add: perform_single_turn_idle)
    next
      case ne: False
      from perform_single_turn_work [OF False Some ne qi, of quantum] obtain t where
        t: "fst (q_dequeue q) = Some t" "0 < remaining t"
        and r: "fst (perform_single_turn s qid quantum) =
             s\<lparr>queues := (queues s)(qid \<mapsto>
                  (if remaining t - min (remaining t) quantum \<le> 0 then snd (q_dequeue q)
                   else snd (q_enqueue (snd (q_dequeue q))
                               (t\<lparr>remaining := remaining t - min (remaining t) quantum\<rparr>)))),
               time := time s + min (remaining t) quantum\<rparr>"
        by blast
      from q_dequeue_front [OF qi ne] have d: "queue_inv (snd (q_dequeue q))" by blast
      have "queue_inv (if remaining t - min (remaining t) quantum \<le> 0 then snd (q_dequeue q)
                   else snd (q_enqueue (snd (q_dequeue q))
                               (t\<lparr>remaining := remaining t - min (remaining t) quantum\<rparr>)))"
        using d by (auto intro!: q_enqueue_inv)
      then show ?thesis
        using assms Some unfolding r by (auto simp: engine_inv_def)
    qed
  qed
qed

lemma advance_index_inv: "engine_inv s \<Longrightarrow> engine_inv (advance_index s)"
  by (auto simp: engine_inv_def advance_index_def)

lemma turn_inv:
  "engine_inv s \<Longrightarrow> turn s quantum = Inr (s1, l) \<Longrightarrow> engine_inv s1"
  by (auto simp: turn_def Let_def split: if_splits prod.splits
      intro!: advance_index_inv dest: perform_single_turn_inv [of s "order s ! next_index s" quantum])

lemma turn_ok:
  "engine_inv s \<Longrightarrow> order s \<noteq> [] \<Longrightarrow> \<exists>s1 l. turn s quantum = Inr (s1, l)"
  by (auto simp: turn_def Let_def engine_inv_def split: prod.splits)

lemma turn_order: "turn s quantum = Inr (s1, l) \<Longrightarrow> order s1 = order s"
  by (auto simp: turn_def Let_def advance_index_def split: if_splits prod.splits
      dest: arg_cong [where f = "\<lambda>p. order (fst p)"] simp: perform_single_turn_frame)


lemma turn_time:
  "turn s quantum = Inr (s1, l) \<Longrightarrow>
   time s1 = time s + worked s (order s ! next_index s) quantum"
  using perform_single_turn_time [of s "order s ! next_index s" quantum]
  by (auto simp: turn_def Let_def advance_index_def split: if_splits prod.splits)

lemma worked_nonneg:
  assumes "engine_inv s" "0 \<le> quantum"
  shows "0 \<le> worked s qid quantum"
proof (cases "queues s qid")
  case None
  then show ?thesis by (simp add: worked_def)
next
  case (Some q)
  then have qi: "queue_inv q" using assms(1) by (auto simp: engine_inv_def)
  show ?thesis
  proof (cases "size_q q = 0")
    case True
    then show ?thesis using Some by (simp add: worked_def q_peek_def)
  next
    case False
    then have "0 < size_q q" by simp
    from queue_inv_slot [OF qi this] qi obtain t where
      "buf q ! head q = Some t" "0 < remaining t"
      by (auto simp: queue_inv_iff)
    then show ?thesis using Some False assms(2) by (simp add: worked_def q_peek_def)
  qed
qed

lemma turns_inv: "turns quantum s ws s' \<Longrightarrow> engine_inv s \<Longrightarrow> engine_inv s'"
  by (induction rule: turns.induct) (auto dest: turn_inv)

lemma turns_time: "turns quantum s ws s' \<Longrightarrow> time s' = time s + sum_list ws"
  by (induction rule: turns.induct) (auto dest: turn_time)

lemma turns_order: "turns quantum s ws s' \<Longrightarrow> order s' = order s"
  by (induction rule: turns.induct) (auto dest: turn_order)

lemma turns_nonneg:
  "turns quantum s ws s' \<Longrightarrow> engine_inv s \<Longrightarrow> 0 \<le> quantum \<Longrightarrow> \<forall>w\<in>set ws. 0 \<le> w"
  by (induction rule: turns.induct) (auto dest: turn_inv intro: worked_nonneg)

lemma run_steps_turns:
  "run_steps n quantum s logs = Inr (s', l') \<Longrightarrow> \<exists>ws. turns quantum s ws s'"
proof (induction n arbitrary: s logs)
  case 0
  then show ?case by (auto intro: turns_done)
next
  case (Suc n)
  show ?case
  proof (cases "order s = []")
    case True
    with Suc.prems Suc.IH show ?thesis by simp
  next
    case False
    with Suc.prems obtain s1 l where
      t: "turn s quantum = Inr (s1, l)" and r: "run_steps n quantum s1 (logs @ l) = Inr (s', l')"
      by (auto split: sum.splits)
    from Suc.IH [OF r] obtain ws where "turns quantum s1 ws s'" by blast
    with t show ?thesis by (blast intro: turns_step)
  qed
qed

lemma run_until_quiet_turns:
  "run_until_quiet quantum s logs = Some r \<Longrightarrow>
   \<forall>s' l'. r = Inr (s', l') \<longrightarrow> (\<exists>ws. turns quantum s ws s')"
proof (induction quantum s logs r rule: run_until_quiet.raw_induct [rotated 1, consumes 1])
  case (1 f quantum s logs r)
  show ?case
  proof (intro allI impI)
    fix s' l' assume r: "r = Inr (s', l')"
    show "\<exists>ws. turns quantum s ws s'"
    proof (cases "all_empty s (order s)")
      case (Inl e)
      with 1(2) r show ?thesis by simp
    next
      case (Inr ae)
      show ?thesis
      proof (cases "ae \<and> \<not> any_skip s (order s)")
        case True
        with 1(2) Inr r have "s' = s" by simp
        then show ?thesis by (auto intro: turns_done)
      next
        case False
        with 1(2) Inr r obtain s1 l where
          t: "turn s quantum = Inr (s1, l)" and f: "f quantum s1 (logs @ l) = Some r"
          by (auto split: sum.splits)
        from 1(1) [OF f] r obtain ws where "turns quantum s1 ws s'" by blast
        with t show ?thesis by (blast intro: turns_step)
      qed
    qed
  qed
qed

lemma run_turns:
  "run s quantum steps = Some (Inr (s', l')) \<Longrightarrow> \<exists>ws. turns quantum s ws s'"
  by (auto simp: run_def split: option.splits if_splits
      intro: turns_done dest: run_steps_turns run_until_quiet_turns)


lemma run_inv:
  "engine_inv s \<Longrightarrow> run s quantum steps = Some (Inr (s', l')) \<Longrightarrow> engine_inv s'"
  using run_turns turns_inv by blast

lemma exec_op_inv:
  assumes "engine_inv s" "exec_op s c = Some (Inr (s', l))"
  shows "engine_inv s'"
proof (cases c)
  case (Create qid cap)
  then show ?thesis
    using assms create_queue_inv [of s qid cap] by (auto simp: exec_op_def)
next
  case (Enq qid item)
  then show ?thesis
    using assms enqueue_inv [of s qid item] by (auto simp: exec_op_def)
next
  case (Skip qid)
  then show ?thesis
    using assms mark_skip_inv [of s qid] by (auto simp: exec_op_def)
next
  case (Run quantum steps)
  then show ?thesis using assms by (auto simp: exec_op_def dest: run_inv)
qed

lemma exec_ops_inv:
  "engine_inv s \<Longrightarrow> exec_ops s cs = Some (Inr s') \<Longrightarrow> engine_inv s'"
proof (induction cs arbitrary: s)
  case Nil
  then show ?case by simp
next
  case (Cons c cs)
  from Cons.prems(2) obtain s1 l where
    c: "exec_op s c = Some (Inr (s1, l))" and r: "exec_ops s1 cs = Some (Inr s')"
    by (auto split: option.splits sum.splits)
  from exec_op_inv [OF Cons.prems(1) c] have "engine_inv s1" .
  then show ?case using r by (rule Cons.IH)
qed

lemma reachable_inv:
  "exec_ops Scheduler_init cs = Some (Inr s) \<Longrightarrow> engine_inv s"
  using engine_inv_init by (rule exec_ops_inv)

lemma create_queue_time: "time (fst (create_queue s qid cap)) = time s"
  by (simp add: create_queue_def Let_def)

lemma mark_skip_time: "time (fst (mark_skip s qid)) = time s"
  by (simp add: mark_skip_def Let_def)

lemma run_time_mono:
  assumes "engine_inv s" "0 \<le> quantum" "run s quantum steps = Some (Inr (s', l'))"
  shows "time s \<le> time s'"
proof -
  from run_turns [OF assms(3)] obtain ws where ws: "turns quantum s ws s'" by blast
  from turns_nonneg [OF ws assms(1,2)] have "0 \<le> sum_list ws"
    by (simp add: sum_list_nonneg)
  with turns_time [OF ws] show ?thesis by simp
qed

lemma exec_op_time_mono:
  assumes "engine_inv s" "quantum_nonneg c" "exec_op s c = Some (Inr (s', l))"
  shows "time s \<le> time s'"
proof (cases c)
  case (Create qid cap)
  with assms(3) show ?thesis using create_queue_time [of s qid cap] by (auto simp: exec_op_def)
next
  case (Enq qid item)
  with assms(3) show ?thesis using enqueue_frame(4) [of s qid item] by (auto simp: exec_op_def)
next
  case (Skip qid)
  with assms(3) show ?thesis using mark_skip_time [of s qid] by (auto simp: exec_op_def)
next
  case (Run quantum steps)
  with assms show ?thesis by (auto simp: exec_op_def intro: run_time_mono)
qed

lemma exec_ops_time_mono:
  "engine_inv s \<Longrightarrow> list_all quantum_nonneg cs \<Longrightarrow> exec_ops s cs = Some (Inr s') \<Longrightarrow>
   time s \<le> time s'"
proof (induction cs arbitrary: s)
  case Nil
  then show ?case by simp
next
  case (Cons c cs)
  from Cons.prems(3) obtain s1 l where
    c: "exec_op s c = Some (Inr (s1, l))" and r: "exec_ops s1 cs = Some (Inr s')"
    by (auto split: option.splits sum.splits)
  have "time s \<le> time s1" using Cons.prems(1,2) c by (auto intro: exec_op_time_mono)
  moreover have "time s1 \<le> time s'"
    using exec_op_inv [OF Cons.prems(1) c] Cons.prems(2) r by (auto intro: Cons.IH)
  ultimately show ?case by simp
qed

lemma contents_front:
  assumes "queue_inv q" "contents_front_to_back q = t # rest"
  shows "size_q q \<noteq> 0 \<and> q_peek q = Some t"
proof -
  have ne: "size_q q \<noteq> 0"
  proof
    assume "size_q q = 0"
    then have "contents_front_to_back q = []"
      by (simp add: contents_front_to_back_def List.map_filter_simps)
    with assms(2) show False by simp
  qed
  from q_dequeue_front [OF assms(1) ne] assms(2) have "fst (q_dequeue q) = Some t" by auto
  then show ?thesis using ne by (simp add: q_dequeue_def q_peek_def Let_def)
qed

lemma contents_length: "queue_inv q \<Longrightarrow> length (contents_front_to_back q) = size_q q"
  by (simp add: contents_map)

text \<open>
  C3. In every state reached from the initial engine by a sequence of operations, every
  queue has at most \<open>capacity\<close> tasks (and \<open>size_q\<close> is the number of tasks it
  holds). On such a queue, \<open>enqueue\<close> at \<open>size = capacity\<close> returns False and the
  queue as it was; otherwise it returns True and the queue with the task added behind all
  others, one task more and the same capacity. A queue of capacity 0, which is what
  creation with capacity 0 gives, therefore rejects every enqueue.
\<close>

theorem size_within_capacity:
  assumes "exec_ops Scheduler_init cs = Some (Inr s)" and "queues s qid = Some q"
  shows "size_q q \<le> capacity q
       \<and> length (contents_front_to_back q) = size_q q
       \<and> (size_q q = capacity q \<longrightarrow> q_enqueue q t = (False, q))
       \<and> (size_q q \<noteq> capacity q \<longrightarrow>
            fst (q_enqueue q t)
            \<and> contents_front_to_back (snd (q_enqueue q t)) = contents_front_to_back q @ [t]
            \<and> size_q (snd (q_enqueue q t)) = size_q q + 1
            \<and> capacity (snd (q_enqueue q t)) = capacity q)
       \<and> (capacity q = 0 \<longrightarrow> q_enqueue q t = (False, q))
       \<and> capacity (QueueRR_init qid 0) = 0"
proof -
  have qi: "queue_inv q"
    using reachable_inv [OF assms(1)] assms(2) by (auto simp: engine_inv_def)
  then have le: "size_q q \<le> capacity q" by (simp add: queue_inv_iff)
  have "size_q q \<noteq> capacity q \<Longrightarrow> size_q q < capacity q" using le by simp
  then show ?thesis
    using le contents_length [OF qi] q_enqueue_contents [OF qi, of t] q_enqueue_size [of q t]
      q_enqueue_ok [of q t]
    by (auto simp: q_enqueue_full QueueRR_init_def)
qed

theorem size_within_capacity_witness:
  "(\<exists>q. queues state_skip_busy ''Q1'' = Some q \<and> size_q q = 1 \<and> capacity q = 1
        \<and> q_enqueue q \<lparr>task_id = ''X'', remaining = 5\<rparr> = (False, q))
   \<and> (\<exists>q. queues state_two_queues ''A'' = Some q \<and> size_q q = 1 \<and> capacity q = 2
        \<and> fst (q_enqueue q \<lparr>task_id = ''X'', remaining = 5\<rparr>)
        \<and> contents_front_to_back (snd (q_enqueue q \<lparr>task_id = ''X'', remaining = 5\<rparr>)) =
            [\<lparr>task_id = ''A-001'', remaining = 1\<rparr>, \<lparr>task_id = ''X'', remaining = 5\<rparr>])
   \<and> (\<exists>q. queues state_quiet ''B'' = Some q \<and> size_q q = 0 \<and> capacity q = 0
        \<and> q_enqueue q \<lparr>task_id = ''X'', remaining = 5\<rparr> = (False, q))"
proof -
  let ?t = "\<lparr>task_id = ''X'', remaining = 5\<rparr>"
  have r1: "exec_ops Scheduler_init [Create ''Q1'' 1, Enq ''Q1'' ''latte'', Skip ''Q1''] =
              Some (Inr state_skip_busy)"
    by (simp add: exec_op_def state_skip_busy_def split: prod.splits)
  have r2: "exec_ops Scheduler_init [Create ''A'' 2, Create ''B'' 1, Enq ''A'' ''tea''] =
              Some (Inr state_two_queues)"
    by (simp add: exec_op_def state_two_queues_def split: prod.splits)
  have r3: "exec_ops Scheduler_init [Create ''A'' 2, Create ''B'' 0] = Some (Inr state_quiet)"
    by (simp add: exec_op_def state_quiet_def split: prod.splits)
  define q1 where "q1 = the (queues state_skip_busy ''Q1'')"
  define q2 where "q2 = the (queues state_two_queues ''A'')"
  define q3 where "q3 = the (queues state_quiet ''B'')"
  have h1: "queues state_skip_busy ''Q1'' = Some q1" unfolding q1_def by code_simp
  have h2: "queues state_two_queues ''A'' = Some q2" unfolding q2_def by code_simp
  have h3: "queues state_quiet ''B'' = Some q3" unfolding q3_def by code_simp
  have v1: "size_q q1 = 1" "capacity q1 = 1" unfolding q1_def by code_simp+
  have v2: "size_q q2 = 1" "capacity q2 = 2"
    "contents_front_to_back q2 = [\<lparr>task_id = ''A-001'', remaining = 1\<rparr>]"
    unfolding q2_def by code_simp+
  have v3: "size_q q3 = 0" "capacity q3 = 0" unfolding q3_def by code_simp+
  show ?thesis
    using size_within_capacity [OF r1 h1, of ?t] size_within_capacity [OF r2 h2, of ?t]
      size_within_capacity [OF r3 h3, of ?t] h1 h2 h3
    by (simp add: v1 v2 v3)
qed

text \<open>
  C4, as stated, fails on the code: \<open>run\<close> accepts any integer quantum, and a work turn
  with a negative quantum moves the clock backwards (here from 0 to -1).
\<close>

theorem clock_decrease_counterexample:
  "exec_ops Scheduler_init [Create ''Q1'' 2, Enq ''Q1'' ''latte'', Enq ''Q1'' ''tea''] =
     Some (Inr state_two_tasks)
   \<and> time state_two_tasks = 0
   \<and> run state_two_tasks (- 1) (Some 1) =
       Some (Inr (advance_index (fst (perform_single_turn state_two_tasks ''Q1'' (- 1))),
                  snd (perform_single_turn state_two_tasks ''Q1'' (- 1))))
   \<and> time (advance_index (fst (perform_single_turn state_two_tasks ''Q1'' (- 1)))) = - 1"
proof -
  have r: "exec_ops Scheduler_init [Create ''Q1'' 2, Enq ''Q1'' ''latte'', Enq ''Q1'' ''tea''] =
     Some (Inr state_two_tasks)"
    by (simp add: exec_op_def state_two_tasks_def split: prod.splits)
  have t: "time state_two_tasks = 0" by code_simp
  have o: "order state_two_tasks = [''Q1'']" "next_index state_two_tasks = 0" by code_simp+
  have a: "run state_two_tasks (- 1) (Some 1) =
       Some (Inr (advance_index (fst (perform_single_turn state_two_tasks ''Q1'' (- 1))),
                  snd (perform_single_turn state_two_tasks ''Q1'' (- 1))))"
    by (simp add: run_def o turn_def Let_def split: prod.splits)
  have b: "time (advance_index (fst (perform_single_turn state_two_tasks ''Q1'' (- 1)))) = - 1"
    by code_simp
  show ?thesis using r t a b by simp
qed

text \<open>
  C4, amended. In every state reached from the initial engine: \<open>create_queue\<close>,
  \<open>enqueue\<close> and \<open>mark_skip\<close> leave the clock unchanged; a single turn advances it by
  exactly the worked amount of that turn, which is 0 when the skip flag is consumed, 0 when
  the queue is empty, and \<open>min(t.remaining, quantum)\<close> for the front task \<open>t\<close>
  otherwise; a \<open>run\<close> that returns is a chain of such turns and advances the clock by
  exactly the sum of their worked amounts; and across any sequence of operations whose
  runs have a quantum that is not negative the clock never decreases.
\<close>

theorem clock_accounting:
  assumes "exec_ops Scheduler_init cs0 = Some (Inr s)"
  shows "time (fst (create_queue s qid cap)) = time s
       \<and> time (fst (enqueue s qid item)) = time s
       \<and> time (fst (mark_skip s qid)) = time s
       \<and> time (fst (perform_single_turn s qid quantum)) = time s + worked s qid quantum
       \<and> (skip_get s qid \<longrightarrow> worked s qid quantum = 0)
       \<and> (\<forall>q. queues s qid = Some q \<and> size_q q = 0 \<longrightarrow> worked s qid quantum = 0)
       \<and> (\<forall>q t rest. \<not> skip_get s qid \<and> queues s qid = Some q
              \<and> contents_front_to_back q = t # rest \<longrightarrow>
              worked s qid quantum = min (remaining t) quantum)
       \<and> (\<forall>s' logs. run s quantum steps = Some (Inr (s', logs)) \<longrightarrow>
              (\<exists>ws. turns quantum s ws s' \<and> time s' = time s + sum_list ws))
       \<and> (\<forall>cs s'. list_all quantum_nonneg cs \<and> exec_ops s cs = Some (Inr s') \<longrightarrow>
              time s \<le> time s')"
proof -
  note inv = reachable_inv [OF assms]
  have w: "worked s qid quantum = min (remaining t) quantum"
    if "\<not> skip_get s qid" "queues s qid = Some q" "contents_front_to_back q = t # rest"
    for q t rest
  proof -
    have "queue_inv q" using inv that(2) by (auto simp: engine_inv_def)
    from contents_front [OF this that(3)] that(1,2) show ?thesis
      by (simp add: worked_def)
  qed
  have r: "\<exists>ws. turns quantum s ws s' \<and> time s' = time s + sum_list ws"
    if "run s quantum steps = Some (Inr (s', logs))" for s' logs
    using run_turns [OF that] turns_time by blast
  have m: "time s \<le> time s'"
    if "list_all quantum_nonneg cs" "exec_ops s cs = Some (Inr s')" for cs s'
    using exec_ops_time_mono [OF inv that] .
  show ?thesis
    using w r m
    by (simp add: create_queue_time enqueue_frame mark_skip_time perform_single_turn_time)
      (auto simp: worked_def q_peek_def)
qed

theorem clock_accounting_witness:
  "exec_ops Scheduler_init [Create ''Q1'' 2, Enq ''Q1'' ''latte'', Enq ''Q1'' ''tea''] =
     Some (Inr state_two_tasks)
   \<and> time state_two_tasks = 0
   \<and> time (fst (perform_single_turn state_two_tasks ''Q1'' 2)) = 2
   \<and> (\<exists>s' logs ws. run state_two_tasks 2 None = Some (Inr (s', logs))
         \<and> turns 2 state_two_tasks ws s' \<and> time s' = sum_list ws \<and> time s' = 4)
   \<and> (\<exists>s'. exec_ops state_two_tasks [Run 2 (Some 1), Skip ''Q1'', Run 0 (Some 1), Run 5 None] =
              Some (Inr s')
         \<and> time state_two_tasks \<le> time s' \<and> time s' = 4)"
proof -
  let ?cs = "[Run 2 (Some 1), Skip ''Q1'', Run 0 (Some 1), Run 5 None]"
  have r: "exec_ops Scheduler_init [Create ''Q1'' 2, Enq ''Q1'' ''latte'', Enq ''Q1'' ''tea''] =
     Some (Inr state_two_tasks)"
    by (simp add: exec_op_def state_two_tasks_def split: prod.splits)
  note c = clock_accounting [OF r, where quantum = 2 and steps = None and qid = "''Q1''"]
  have t: "time state_two_tasks = 0" by code_simp
  have w: "worked state_two_tasks ''Q1'' 2 = 2" by code_simp
  have "case run state_two_tasks 2 None of Some (Inr (s', logs)) \<Rightarrow> time s' = 4 | _ \<Rightarrow> False"
    by code_simp
  then obtain s1 logs where
    s1: "run state_two_tasks 2 None = Some (Inr (s1, logs))" "time s1 = 4"
    by (auto split: option.splits sum.splits)
  have "case exec_ops state_two_tasks ?cs of Some (Inr s') \<Rightarrow> time s' = 4 | _ \<Rightarrow> False"
    by code_simp
  then obtain s2 where s2: "exec_ops state_two_tasks ?cs = Some (Inr s2)" "time s2 = 4"
    by (auto split: option.splits sum.splits)
  have n: "list_all quantum_nonneg ?cs" by simp
  from c s1 obtain ws where
    "turns 2 state_two_tasks ws s1" "time s1 = time state_two_tasks + sum_list ws"
    by blast
  moreover from c n s2 have "time state_two_tasks \<le> time s2"
    by blast
  moreover from c w
  have "time (fst (perform_single_turn state_two_tasks ''Q1'' 2)) = 2" by (simp add: t)
  ultimately show ?thesis
    using r t s1 s2 by auto
qed

section \<open>Task ids\<close>

lemma digit_val_char: "d < 10 \<Longrightarrow> digit_val (digit_char d) = d"
proof -
  assume "d < 10"
  then have "d \<in> {0, 1, 2, 3, 4, 5, 6, 7, 8, 9}" by auto
  then show ?thesis
    by (elim insertE emptyE) (simp_all add: digit_val_def digit_char_def)
qed

lemma read_nat_snoc: "read_nat (cs @ [c]) = 10 * read_nat cs + digit_val c"
  by (simp add: read_nat_def)

lemma read_show_nat: "read_nat (show_nat n) = n"
proof (induction n rule: show_nat.induct)
  case (1 n)
  show ?case
  proof (cases "n < 10")
    case True
    then show ?thesis
      by (subst show_nat.simps) (simp add: read_nat_def digit_val_char)
  next
    case False
    then have "read_nat (show_nat n) = 10 * read_nat (show_nat (n div 10)) + digit_val (digit_char (n mod 10))"
      by (subst show_nat.simps) (simp add: read_nat_snoc)
    then show ?thesis using 1 False by (simp add: digit_val_char)
  qed
qed

lemma read_nat_zeros: "read_nat (replicate k CHR ''0'' @ cs) = read_nat cs"
proof -
  have "foldl (\<lambda>a c. 10 * a + digit_val c) 0 (replicate k CHR ''0'') = 0"
    by (induction k) (simp_all add: digit_val_def)
  then show ?thesis by (simp add: read_nat_def)
qed

lemma read_format_03d: "read_nat (format_03d n) = n"
  by (simp add: format_03d_def read_nat_zeros read_show_nat)

lemma format_03d_inj: "format_03d m = format_03d n \<Longrightarrow> m = n"
  by (metis read_format_03d)

lemma show_nat_length: "0 < length (show_nat n)"
  by (subst show_nat.simps) simp

lemma show_nat_length_3: "n < 1000 \<Longrightarrow> length (show_nat n) \<le> 3"
  by (subst show_nat.simps, simp, subst show_nat.simps, simp, subst show_nat.simps, simp)

lemma format_03d_length: "length (format_03d n) = max 3 (length (show_nat n))"
  by (simp add: format_03d_def)

lemma next_task_ids_eq:
  "next_task_ids k q =
     (map (\<lambda>n. queue_id q @ ''-'' @ format_03d n) [next_task_num q..<next_task_num q + k],
      q\<lparr>next_task_num := next_task_num q + k\<rparr>)"
proof (induction k arbitrary: q)
  case 0
  then show ?case by simp
next
  case (Suc k)
  show ?case
    by (simp add: Suc.IH next_task_id_def upt_conv_Cons del: upt_Suc)
qed

lemma task_ids_distinct:
  "distinct (map (\<lambda>n. qid @ ''-'' @ format_03d n) [a..<b])"
  by (auto simp: distinct_map inj_on_def dest: format_03d_inj)


lemma q_dequeue_counter: "next_task_num (snd (q_dequeue q)) = next_task_num q"
  by (simp add: q_dequeue_def Let_def)

lemma q_enqueue_counter: "next_task_num (snd (q_enqueue q t)) = next_task_num q"
  by (simp add: q_enqueue_def Let_def)

lemma perform_single_turn_counter:
  "queues s qid' = Some q \<Longrightarrow>
   \<exists>q'. queues (fst (perform_single_turn s qid quantum)) qid' = Some q'
        \<and> next_task_num q' = next_task_num q"
  by (auto simp: perform_single_turn_def q_dequeue_def q_enqueue_def Let_def
      split: option.splits prod.splits if_splits)

text \<open>
  C7. One call of the generator returns \<open>queue_id-NNN\<close>, where \<open>NNN\<close> is the counter in
  decimal, padded with zeros on the left to three digits, and advances the counter by one.
  A fresh queue starts at 1, so \<open>k\<close> successive calls on it return the ids numbered
  \<open>1, 2, ..., k\<close>; the ids of any run of successive calls are pairwise distinct. The
  padded digits denote the counter again (which is why distinct counters give distinct
  ids), and below 1000 they are exactly three. Neither \<open>enqueue\<close> nor \<open>dequeue\<close> of the
  queue touches the counter; a submission to an existing queue advances it by one whatever
  its outcome, and a turn (dequeue and re-enqueue included) leaves it unchanged.
\<close>

theorem task_id_sequence:
  "fst (next_task_id q) = queue_id q @ ''-'' @ format_03d (next_task_num q)
   \<and> snd (next_task_id q) = q\<lparr>next_task_num := next_task_num q + 1\<rparr>
   \<and> next_task_num (QueueRR_init qid cap) = 1
   \<and> fst (next_task_ids k (QueueRR_init qid cap)) =
        map (\<lambda>n. qid @ ''-'' @ format_03d n) [1..<Suc k]
   \<and> distinct (fst (next_task_ids k q))
   \<and> format_03d n = replicate (3 - length (show_nat n)) CHR ''0'' @ show_nat n
   \<and> read_nat (show_nat n) = n
   \<and> (n < 1000 \<longrightarrow> length (format_03d n) = 3)
   \<and> next_task_num (snd (q_enqueue q t)) = next_task_num q
   \<and> next_task_num (snd (q_dequeue q)) = next_task_num q
   \<and> (queues s qid = Some q \<longrightarrow>
        (\<exists>q'. queues (fst (enqueue s qid item)) qid = Some q'
              \<and> next_task_num q' = next_task_num q + 1)
        \<and> (\<exists>q'. queues (fst (perform_single_turn s qid' quantum)) qid = Some q'
              \<and> next_task_num q' = next_task_num q))"
proof -
  have "fst (next_task_ids k (QueueRR_init qid cap)) =
        map (\<lambda>n. qid @ ''-'' @ format_03d n) [1..<Suc k]"
    by (simp add: next_task_ids_eq QueueRR_init_def Let_def del: upt_Suc)
  moreover have "distinct (fst (next_task_ids k q))"
    using task_ids_distinct [of "queue_id q" "next_task_num q" "next_task_num q + k"]
    by (simp add: next_task_ids_eq)
  moreover have "n < 1000 \<longrightarrow> length (format_03d n) = 3"
    using show_nat_length_3 [of n] by (auto simp: format_03d_length)
  moreover have "queues s qid = Some q \<longrightarrow>
        (\<exists>q'. queues (fst (enqueue s qid item)) qid = Some q'
              \<and> next_task_num q' = next_task_num q + 1)
        \<and> (\<exists>q'. queues (fst (perform_single_turn s qid' quantum)) qid = Some q'
              \<and> next_task_num q' = next_task_num q)"
    using enqueue_counter [of s qid q item] perform_single_turn_counter [of s qid q qid' quantum]
    by blast
  ultimately show ?thesis
    by (simp add: next_task_id_def format_03d_def read_show_nat q_enqueue_counter
        q_dequeue_counter QueueRR_init_def Let_def del: upt_Suc)
qed

theorem task_id_sequence_witness:
  "fst (next_task_ids 3 (QueueRR_init ''Q1'' 2)) = [''Q1-001'', ''Q1-002'', ''Q1-003'']
   \<and> (7::nat) < 1000 \<and> format_03d 7 = ''007'' \<and> length (format_03d 7) = 3
   \<and> format_03d 1234 = ''1234''
   \<and> map_option next_task_num (queues state_skip_busy ''Q1'') = Some 2
   \<and> (\<exists>q'. queues (fst (enqueue state_skip_busy ''Q1'' ''espresso'')) ''Q1'' = Some q'
          \<and> next_task_num q' = 3)
   \<and> (\<exists>q'. queues (fst (perform_single_turn state_skip_busy ''Q1'' 1)) ''Q1'' = Some q'
          \<and> next_task_num q' = 2)"
proof -
  define q where "q = the (queues state_skip_busy ''Q1'')"
  have h: "queues state_skip_busy ''Q1'' = Some q" "next_task_num q = 2"
    by (simp_all add: q_def state_skip_busy_eval)
  have a: "fst (next_task_ids 3 (QueueRR_init ''Q1'' 2)) = [''Q1-001'', ''Q1-002'', ''Q1-003'']"
    by code_simp
  have b: "format_03d 7 = ''007''" "format_03d 1234 = ''1234''" by code_simp+
  note t = task_id_sequence [where n = 7 and q = q and qid = "''Q1''" and s = state_skip_busy
      and item = "''espresso''" and qid' = "''Q1''" and quantum = 1]
  have "(7::nat) < 1000 \<longrightarrow> length (format_03d 7) = 3"
    using t by blast
  moreover have "(\<exists>q'. queues (fst (enqueue state_skip_busy ''Q1'' ''espresso'')) ''Q1'' = Some q'
          \<and> next_task_num q' = 3)
   \<and> (\<exists>q'. queues (fst (perform_single_turn state_skip_busy ''Q1'' 1)) ''Q1'' = Some q'
          \<and> next_task_num q' = 2)"
    using t h by simp
  ultimately show ?thesis
    using a b h by simp
qed

section \<open>Termination of the run without steps\<close>

lemma all_empty_Inr:
  "\<forall>qid\<in>set qids. queues s qid \<noteq> None \<Longrightarrow>
   all_empty s qids = Inr (\<forall>qid\<in>set qids. size_q (the (queues s qid)) = 0)"
  by (induction qids) auto

lemma loop_exit:
  assumes "engine_inv s"
  shows "\<exists>ae. all_empty s (order s) = Inr ae
          \<and> ((ae \<and> \<not> any_skip s (order s)) \<longleftrightarrow> (\<forall>qid\<in>set (order s). \<not> active s qid))"
proof -
  have p: "\<forall>qid\<in>set (order s). queues s qid \<noteq> None"
    using assms by (simp add: engine_inv_def)
  have "((\<forall>qid\<in>set (order s). size_q (the (queues s qid)) = 0) \<and> \<not> any_skip s (order s))
        \<longleftrightarrow> (\<forall>qid\<in>set (order s). \<not> active s qid)"
    using p by (auto simp: any_skip_def list_ex_iff active_def split: option.splits)
  with all_empty_Inr [OF p] show ?thesis by simp
qed

lemma quiescent_iff:
  assumes "engine_inv s"
  shows "quiescent s \<longleftrightarrow> (\<forall>qid\<in>set (order s). \<not> active s qid)"
proof -
  have p: "\<forall>qid\<in>set (order s). queues s qid \<noteq> None"
    using assms by (simp add: engine_inv_def)
  then show ?thesis
    by (auto simp: quiescent_def list_all_iff list_ex_iff active_def split: option.splits)
qed

lemma active_advance [simp]: "active (advance_index s) = active s"
  by (intro ext) (simp add: active_def advance_index_def skip_get_def)

lemma load_advance [simp]: "load (advance_index s) = load s"
  by (simp add: load_def queue_load_def advance_index_def skip_get_def cong: sum.cong)

lemma turn_eq:
  "next_index s < length (order s) \<Longrightarrow>
   turn s quantum =
     Inr (advance_index (fst (perform_single_turn s (order s ! next_index s) quantum)),
          snd (perform_single_turn s (order s ! next_index s) quantum))"
  by (simp add: turn_def Let_def split_beta)

lemma turn_idle:
  assumes "engine_inv s" "next_index s < length (order s)"
    "\<not> active s (order s ! next_index s)"
  shows "\<exists>l. turn s quantum = Inr (advance_index s, l)"
proof -
  let ?qid = "order s ! next_index s"
  have "?qid \<in> set (order s)" using assms(2) by simp
  then obtain q where q: "queues s ?qid = Some q"
    using assms(1) by (auto simp: engine_inv_def)
  with assms(3) have "\<not> skip_get s ?qid" "size_q q = 0" by (auto simp: active_def)
  then have "fst (perform_single_turn s ?qid quantum) = s"
    using q by (simp add: perform_single_turn_idle)
  then show ?thesis
    using assms(2) by (simp add: turn_eq)
qed

lemma idle_run_advance:
  assumes "next_index s < length (order s)" "\<not> active s (order s ! next_index s)"
    "\<exists>qid\<in>set (order s). active s qid"
  shows "idle_run (advance_index s) < idle_run s"
proof -
  let ?n = "length (order s)"
  let ?xs = "rotate (next_index s) (order s)"
  have ne: "order s \<noteq> []" using assms(1) by auto
  then have "?xs \<noteq> []" by simp
  then obtain x ys where xs: "?xs = x # ys" by (cases ?xs) auto
  have "hd ?xs = order s ! next_index s"
    using ne assms(1) by (simp add: hd_rotate_conv_nth)
  with xs have x: "x = order s ! next_index s" by simp
  from assms(3) obtain z where z: "z \<in> set ?xs" "active s z" by auto
  with xs x assms(2) have zy: "z \<in> set ys" by auto
  have a: "next_index (advance_index s) = Suc (next_index s) mod ?n"
    "order (advance_index s) = order s"
    using ne by (simp_all add: advance_index_def)
  have "rotate (Suc (next_index s) mod ?n) (order s) = rotate (Suc (next_index s)) (order s)"
    by (simp add: rotate_conv_mod [symmetric])
  also have "\<dots> = ys @ [x]" by (simp add: xs)
  finally have r: "rotate (next_index (advance_index s)) (order (advance_index s)) = ys @ [x]"
    by (simp only: a)
  have "takeWhile (\<lambda>qid. \<not> active s qid) (ys @ [x]) = takeWhile (\<lambda>qid. \<not> active s qid) ys"
    using zy z(2) by (intro takeWhile_append1) auto
  then show ?thesis
    using x assms(2) by (simp add: idle_run_def r xs)
qed


lemma queue_load_skip:
  assumes "skip_get s qid"
  shows "queue_load (s\<lparr>skip_pending := (skip_pending s)(qid \<mapsto> False)\<rparr>) qid < queue_load s qid"
    and "qid' \<noteq> qid \<Longrightarrow>
         queue_load (s\<lparr>skip_pending := (skip_pending s)(qid \<mapsto> False)\<rparr>) qid' = queue_load s qid'"
  using assms by (simp_all add: queue_load_def skip_get_def)

lemma queue_load_other:
  "qid' \<noteq> qid \<Longrightarrow>
   queue_load (s\<lparr>queues := (queues s)(qid \<mapsto> q'), time := c\<rparr>) qid' = queue_load s qid'"
  by (simp add: queue_load_def skip_get_def)

lemma queue_load_work:
  assumes "\<not> skip_get s qid" "queues s qid = Some q" "size_q q \<noteq> 0" "queue_inv q"
    "fst (q_dequeue q) = Some t" "1 \<le> quantum"
  shows "queue_load
           (s\<lparr>queues := (queues s)(qid \<mapsto>
                (if remaining t - min (remaining t) quantum \<le> 0 then snd (q_dequeue q)
                 else snd (q_enqueue (snd (q_dequeue q))
                             (t\<lparr>remaining := remaining t - min (remaining t) quantum\<rparr>)))),
              time := c\<rparr>) qid
         < queue_load s qid"
proof -
  define w where "w = min (remaining t) quantum"
  define t' where "t' = t\<lparr>remaining := remaining t - w\<rparr>"
  define q1 where "q1 = snd (q_dequeue q)"
  define q2 where "q2 = snd (q_enqueue q1 t')"
  from q_dequeue_front [OF assms(4,3)] assms(5)
  have d: "0 < remaining t" "contents_front_to_back q = t # contents_front_to_back q1"
    "queue_inv q1" "size_q q1 = size_q q - 1" "capacity q1 = capacity q"
    by (auto simp: q1_def)
  have "size_q q \<le> capacity q" using assms(4) by (simp add: queue_inv_iff)
  then have lt: "size_q q1 < capacity q1" using d(4,5) assms(3) by simp
  have c2: "contents_front_to_back q2 = contents_front_to_back q1 @ [t']"
    unfolding q2_def by (rule q_enqueue_contents [OF d(3) lt])
  have w: "1 \<le> w" using d(1) assms(6) by (simp add: w_def)
  have rt: "remaining t' = remaining t - w" by (simp add: t'_def)
  let ?S = "sum_list (map (\<lambda>t. nat (remaining t)) (contents_front_to_back q1))"
  have old: "queue_load s qid = nat (remaining t) + ?S"
    using assms(1,2) by (simp add: queue_load_def d(2))
  have new: "queue_load
           (s\<lparr>queues := (queues s)(qid \<mapsto> (if remaining t - w \<le> 0 then q1 else q2)),
              time := c\<rparr>) qid
        = (if remaining t - w \<le> 0 then ?S else ?S + nat (remaining t - w))"
    using assms(1) by (simp add: queue_load_def skip_get_def c2 rt)
  have "(if remaining t - w \<le> 0 then ?S else ?S + nat (remaining t - w)) < nat (remaining t) + ?S"
    using d(1) w by auto
  then have "queue_load
           (s\<lparr>queues := (queues s)(qid \<mapsto> (if remaining t - w \<le> 0 then q1 else q2)),
              time := c\<rparr>) qid < queue_load s qid"
    by (simp only: old new)
  then show ?thesis
    by (simp only: q2_def q1_def t'_def w_def)
qed

lemma perform_single_turn_load:
  assumes "engine_inv s" "qid \<in> set (order s)" "active s qid" "1 \<le> quantum"
  shows "load (fst (perform_single_turn s qid quantum)) < load s"
proof -
  let ?x = "fst (perform_single_turn s qid quantum)"
  obtain q where q: "queues s qid = Some q" "queue_inv q"
    using assms(1,2) by (auto simp: engine_inv_def)
  have "queue_load ?x qid < queue_load s qid
        \<and> (\<forall>qid'. qid' \<noteq> qid \<longrightarrow> queue_load ?x qid' = queue_load s qid')"
  proof (cases "skip_get s qid")
    case True
    then show ?thesis
      using queue_load_skip [OF True] by (simp add: perform_single_turn_skip)
  next
    case False
    with assms(3) q(1) have ne: "size_q q \<noteq> 0" by (simp add: active_def)
    from perform_single_turn_work [OF False q(1) ne q(2), of quantum] obtain t where
      t: "fst (q_dequeue q) = Some t"
      and r: "?x =
             s\<lparr>queues := (queues s)(qid \<mapsto>
                  (if remaining t - min (remaining t) quantum \<le> 0 then snd (q_dequeue q)
                   else snd (q_enqueue (snd (q_dequeue q))
                               (t\<lparr>remaining := remaining t - min (remaining t) quantum\<rparr>)))),
               time := time s + min (remaining t) quantum\<rparr>"
      by blast
    show ?thesis
      unfolding r
      using queue_load_work [OF False q(1) ne q(2) t assms(4)] queue_load_other
      by blast
  qed
  then have "\<forall>a\<in>set (order s). queue_load ?x a \<le> queue_load s a"
    "\<exists>a\<in>set (order s). queue_load ?x a < queue_load s a"
    using assms(2) by (auto simp: le_less)
  then have "sum (queue_load ?x) (set (order s)) < sum (queue_load s) (set (order s))"
    by (intro sum_strict_mono_ex1) auto
  then show ?thesis
    by (simp add: load_def perform_single_turn_frame)
qed

lemma turn_active:
  assumes "engine_inv s" "next_index s < length (order s)"
    "active s (order s ! next_index s)" "1 \<le> quantum"
  shows "\<exists>s1 l. turn s quantum = Inr (s1, l) \<and> load s1 < load s"
  using perform_single_turn_load [OF assms(1) _ assms(3,4)] assms(2)
  by (simp add: turn_eq)


lemma run_until_quiet_returns:
  assumes "1 \<le> quantum"
  shows "engine_inv s \<Longrightarrow> order s \<noteq> [] \<Longrightarrow>
         \<exists>s' l'. run_until_quiet quantum s logs = Some (Inr (s', l')) \<and> quiescent s'"
proof (induction s arbitrary: logs rule: wf_induct_rule [OF wf_measures [of "[load, idle_run]"]])
  case (1 s)
  from loop_exit [OF "1.prems"(1)] obtain ae where
    ae: "all_empty s (order s) = Inr ae"
      "(ae \<and> \<not> any_skip s (order s)) \<longleftrightarrow> (\<forall>qid\<in>set (order s). \<not> active s qid)"
    by blast
  show ?case
  proof (cases "\<forall>qid\<in>set (order s). \<not> active s qid")
    case True
    then have "quiescent s" using "1.prems"(1) by (simp add: quiescent_iff)
    moreover have "run_until_quiet quantum s logs = Some (Inr (s, logs))"
      using ae True by (subst run_until_quiet.simps) simp
    ultimately show ?thesis by blast
  next
    case False
    have ni: "next_index s < length (order s)"
      using "1.prems" by (auto simp: engine_inv_def)
    have "\<exists>s1 l. turn s quantum = Inr (s1, l) \<and> (s1, s) \<in> measures [load, idle_run]"
    proof (cases "active s (order s ! next_index s)")
      case True
      from turn_active [OF "1.prems"(1) ni True assms] show ?thesis by auto
    next
      case idle: False
      from turn_idle [OF "1.prems"(1) ni idle, of quantum] obtain l where
        "turn s quantum = Inr (advance_index s, l)" by blast
      moreover have "idle_run (advance_index s) < idle_run s"
        using False by (intro idle_run_advance [OF ni idle]) blast
      ultimately show ?thesis by auto
    qed
    then obtain s1 l where t: "turn s quantum = Inr (s1, l)"
      and m: "(s1, s) \<in> measures [load, idle_run]" by blast
    have "engine_inv s1" using "1.prems"(1) t by (rule turn_inv)
    moreover have "order s1 \<noteq> []" using turn_order [OF t] "1.prems"(2) by simp
    ultimately obtain s' l' where
      r: "run_until_quiet quantum s1 (logs @ l) = Some (Inr (s', l'))" "quiescent s'"
      using "1.IH" [OF m] by blast
    have ex: "\<not> (ae \<and> \<not> any_skip s (order s))" using ae(2) False by simp
    have "run_until_quiet quantum s logs = run_until_quiet quantum s1 (logs @ l)"
      by (subst run_until_quiet.simps) (simp add: ae(1) ex t del: de_Morgan_conj not_not)
    with r show ?thesis by simp
  qed
qed

lemma turn_sizes:
  assumes "engine_inv s" "quantum \<le> 0" "turn s quantum = Inr (s1, l)"
    "queues s qid = Some q"
  shows "\<exists>q1. queues s1 qid = Some q1 \<and> size_q q1 = size_q q"
proof -
  have ni: "next_index s < length (order s)"
    using assms(3) by (simp add: turn_def split: if_splits)
  let ?cur = "order s ! next_index s"
  let ?x = "fst (perform_single_turn s ?cur quantum)"
  have s1: "queues s1 = queues ?x"
    using assms(3) ni by (auto simp: turn_eq advance_index_def)
  have "\<exists>q1. queues ?x qid = Some q1 \<and> size_q q1 = size_q q"
  proof (cases "skip_get s ?cur")
    case True
    then show ?thesis using assms(4) by (simp add: perform_single_turn_skip)
  next
    case False
    have "?cur \<in> set (order s)" using ni by simp
    then obtain c where c: "queues s ?cur = Some c" "queue_inv c"
      using assms(1) by (auto simp: engine_inv_def)
    show ?thesis
    proof (cases "size_q c = 0")
      case True
      then show ?thesis using False c assms(4) by (simp add: perform_single_turn_idle)
    next
      case ne: False
      from perform_single_turn_work [OF False c(1) ne c(2), of quantum] obtain t where
        t: "fst (q_dequeue c) = Some t" "0 < remaining t"
        and r: "?x =
             s\<lparr>queues := (queues s)(?cur \<mapsto>
                  (if remaining t - min (remaining t) quantum \<le> 0 then snd (q_dequeue c)
                   else snd (q_enqueue (snd (q_dequeue c))
                               (t\<lparr>remaining := remaining t - min (remaining t) quantum\<rparr>)))),
               time := time s + min (remaining t) quantum\<rparr>"
        by blast
      have pos: "\<not> remaining t - min (remaining t) quantum \<le> 0"
        using t(2) assms(2) by simp
      from q_dequeue_front [OF c(2) ne]
      have d: "size_q (snd (q_dequeue c)) = size_q c - 1"
        "capacity (snd (q_dequeue c)) = capacity c" by auto
      have "size_q c \<le> capacity c" using c(2) by (simp add: queue_inv_iff)
      then have "size_q (snd (q_dequeue c)) < capacity (snd (q_dequeue c))"
        using d ne by simp
      from q_enqueue_size [OF this] d ne
      have "size_q (snd (q_enqueue (snd (q_dequeue c))
                (t\<lparr>remaining := remaining t - min (remaining t) quantum\<rparr>))) = size_q c"
        by simp
      then show ?thesis
        unfolding r using pos assms(4) c(1) by (cases "qid = ?cur") auto
    qed
  qed
  then show ?thesis by (simp add: s1)
qed

lemma run_until_quiet_diverges_aux:
  "run_until_quiet quantum s logs = Some r \<Longrightarrow>
   quantum \<le> 0 \<longrightarrow> engine_inv s \<longrightarrow>
   \<not> (\<exists>qid\<in>set (order s). \<exists>q. queues s qid = Some q \<and> size_q q \<noteq> 0)"
proof (induction quantum s logs r rule: run_until_quiet.raw_induct [rotated 1, consumes 1])
  case (1 f quantum s logs r)
  show ?case
  proof (intro impI notI)
    assume q: "quantum \<le> 0" and inv: "engine_inv s"
      and ne: "\<exists>qid\<in>set (order s). \<exists>q. queues s qid = Some q \<and> size_q q \<noteq> 0"
    then obtain qid q where qid: "qid \<in> set (order s)" "queues s qid = Some q" "size_q q \<noteq> 0"
      by blast
    have p: "\<forall>qid\<in>set (order s). queues s qid \<noteq> None"
      using inv by (simp add: engine_inv_def)
    have "\<not> (\<forall>qid\<in>set (order s). size_q (the (queues s qid)) = 0)"
      using qid by force
    then have ae: "all_empty s (order s) = Inr False"
      using all_empty_Inr [OF p] by simp
    have "order s \<noteq> []" using qid(1) by auto
    from turn_ok [OF inv this, of quantum] obtain s1 l where
      t: "turn s quantum = Inr (s1, l)" by blast
    with 1(2) ae have f: "f quantum s1 (logs @ l) = Some r" by simp
    from turn_sizes [OF inv q t qid(2)] obtain q1 where
      "queues s1 qid = Some q1" "size_q q1 \<noteq> 0" using qid(3) by auto
    moreover have "qid \<in> set (order s1)" using turn_order [OF t] qid(1) by simp
    ultimately have "\<exists>qid\<in>set (order s1). \<exists>q. queues s1 qid = Some q \<and> size_q q \<noteq> 0"
      by blast
    with 1(1) [OF f] q turn_inv [OF inv t] show False by blast
  qed
qed

lemma run_until_quiet_diverges:
  assumes "quantum \<le> 0" "engine_inv s" "queues s qid = Some q" "size_q q \<noteq> 0"
  shows "run_until_quiet quantum s logs = None"
proof (cases "run_until_quiet quantum s logs")
  case None
  then show ?thesis .
next
  case (Some r)
  have "qid \<in> set (order s)" using assms(2,3) by (simp add: engine_inv_def)
  with run_until_quiet_diverges_aux [OF Some] assms show ?thesis by blast
qed

text \<open>
  C10. In every state reached from the initial engine by a sequence of operations, a run
  without steps and with quantum at least 1 returns (without raising), and the state it
  returns is quiescent. The loop makes progress because a turn against an active queue
  strictly lowers the load (it consumes a pending skip or takes at least one unit off the
  front task), a turn against a queue that is not active changes nothing but the cursor,
  and an engine that is not quiescent has an active queue in its creation order. With a
  quantum of 0 or less and some non-empty queue, the same call never returns.
\<close>

theorem run_to_quiescence_terminates:
  assumes "exec_ops Scheduler_init cs = Some (Inr s)"
  shows "(1 \<le> quantum \<longrightarrow>
            (\<exists>s' logs. run s quantum None = Some (Inr (s', logs)) \<and> quiescent s'))
       \<and> (1 \<le> quantum \<and> next_index s < length (order s)
              \<and> active s (order s ! next_index s) \<longrightarrow>
            (\<exists>s1 l. turn s quantum = Inr (s1, l) \<and> load s1 < load s))
       \<and> (next_index s < length (order s) \<and> \<not> active s (order s ! next_index s) \<longrightarrow>
            (\<exists>l. turn s quantum = Inr (advance_index s, l)))
       \<and> (quiescent s \<longleftrightarrow> (\<forall>qid\<in>set (order s). \<not> active s qid))
       \<and> (quantum \<le> 0 \<and> (\<exists>qid q. queues s qid = Some q \<and> size_q q \<noteq> 0) \<longrightarrow>
            run s quantum None = None)"
proof -
  note inv = reachable_inv [OF assms]
  have a: "\<exists>s' logs. run s quantum None = Some (Inr (s', logs)) \<and> quiescent s'"
    if "1 \<le> quantum"
  proof (cases "order s = []")
    case True
    then show ?thesis by (simp add: run_def quiescent_def)
  next
    case False
    with run_until_quiet_returns [OF that inv False, of "[]"] show ?thesis
      by (simp add: run_def)
  qed
  have b: "run s quantum None = None"
    if "quantum \<le> 0" "queues s qid = Some q" "size_q q \<noteq> 0" for qid q
  proof -
    have "qid \<in> set (order s)" using inv that(2) by (simp add: engine_inv_def)
    then have "order s \<noteq> []" by auto
    with run_until_quiet_diverges [OF that(1) inv that(2,3), of "[]"] show ?thesis
      by (simp add: run_def)
  qed
  show ?thesis
    using a b turn_active [OF inv, of quantum] turn_idle [OF inv, of quantum] quiescent_iff [OF inv]
    by blast
qed


theorem run_to_quiescence_terminates_witness:
  "exec_ops Scheduler_init [Create ''A'' 2, Create ''B'' 1, Enq ''A'' ''tea''] =
     Some (Inr state_two_queues)
   \<and> (\<exists>s' logs. run state_two_queues 1 None = Some (Inr (s', logs)) \<and> quiescent s')
   \<and> next_index state_two_queues < length (order state_two_queues)
   \<and> active state_two_queues (order state_two_queues ! next_index state_two_queues)
   \<and> (\<exists>s1 l. turn state_two_queues 1 = Inr (s1, l) \<and> load s1 < load state_two_queues)
   \<and> (\<exists>q. queues state_two_queues ''A'' = Some q \<and> size_q q \<noteq> 0)
   \<and> run state_two_queues 0 None = None
   \<and> \<not> active state_idle_first (order state_idle_first ! next_index state_idle_first)
   \<and> (\<exists>l. turn state_idle_first 1 = Inr (advance_index state_idle_first, l))"
proof -
  have r1: "exec_ops Scheduler_init [Create ''A'' 2, Create ''B'' 1, Enq ''A'' ''tea''] =
     Some (Inr state_two_queues)"
    by (simp add: exec_op_def state_two_queues_def split: prod.splits)
  have r2: "exec_ops Scheduler_init [Create ''A'' 2, Create ''B'' 1, Enq ''B'' ''tea''] =
     Some (Inr state_idle_first)"
    by (simp add: exec_op_def state_idle_first_def split: prod.splits)
  have n1: "next_index state_two_queues < length (order state_two_queues)" by code_simp
  have a1: "active state_two_queues (order state_two_queues ! next_index state_two_queues)"
    by code_simp
  have n2: "next_index state_idle_first < length (order state_idle_first)" by code_simp
  have a2: "\<not> active state_idle_first (order state_idle_first ! next_index state_idle_first)"
    by code_simp
  define q where "q = the (queues state_two_queues ''A'')"
  have q: "queues state_two_queues ''A'' = Some q" "size_q q \<noteq> 0"
    unfolding q_def by code_simp+
  have one: "(1::int) \<le> 1" and zero: "(0::int) \<le> 0" by simp_all
  have "\<exists>s' logs. run state_two_queues 1 None = Some (Inr (s', logs)) \<and> quiescent s'"
    using run_to_quiescence_terminates [OF r1, of 1] one by blast
  moreover have "\<exists>s1 l. turn state_two_queues 1 = Inr (s1, l) \<and> load s1 < load state_two_queues"
    using run_to_quiescence_terminates [OF r1, of 1] one n1 a1 by blast
  moreover have "run state_two_queues 0 None = None"
    using run_to_quiescence_terminates [OF r1, of 0] zero q by blast
  moreover have "\<exists>l. turn state_idle_first 1 = Inr (advance_index state_idle_first, l)"
    using run_to_quiescence_terminates [OF r2, of 1] n2 a2 by blast
  ultimately show ?thesis
    using r1 n1 a1 a2 q by blast
qed

end
